theory Spec2Isabelle
  imports Complex_Main "HOL-Library.Multiset" "HOL-Library.AList"
begin

section \<open>Python values and errors\<close>

text \<open>
  The program is written in Python. Every exception the modelled functions can raise is a value of
  \<open>py_error\<close>; a function that may raise returns \<open>py_error + 'a\<close>, with \<open>Inl\<close> the
  exception. \<open>TransportError\<close> carries the text \<open>str(e)\<close> of an exception raised by the
  HTTP layer; \<open>UnicodeEncodeError\<close> and \<open>OSError\<close> are what writing a line to a file may
  raise.
\<close>

datatype py_error =
    TypeError
  | ValueError
  | IndexError
  | KeyError
  | ZeroDivisionError
  | RuntimeError
  | UnicodeEncodeError
  | OSError
  | TransportError string

text \<open>
  Python's \<open>xs[:c]\<close>: a non-negative bound takes a prefix, a negative one counts from
  the end of the list.
\<close>

definition py_slice_to :: "'a list \<Rightarrow> int \<Rightarrow> 'a list" where
  "py_slice_to xs c =
     (if 0 \<le> c then take (nat c) xs else take (nat (int (length xs) + c)) xs)"

text \<open>
  Python's subscript \<open>xs[i]\<close>. An index from \<open>-len(xs)\<close> up to \<open>-1\<close> addresses the
  list from its end; an index outside \<open>-len(xs) .. len(xs) - 1\<close> raises \<open>IndexError\<close>.
\<close>

definition py_getitem :: "'a list \<Rightarrow> int \<Rightarrow> py_error + 'a" where
  "py_getitem xs i =
     (if 0 \<le> i \<and> i < int (length xs) then Inr (xs ! nat i)
      else if i < 0 \<and> - int (length xs) \<le> i then Inr (xs ! nat (int (length xs) + i))
      else Inl IndexError)"

text \<open>Sequencing of steps that may raise: the first exception ends the computation.\<close>

definition py_bind :: "py_error + 'a \<Rightarrow> ('a \<Rightarrow> py_error + 'b) \<Rightarrow> py_error + 'b" where
  "py_bind r f = (case r of Inl e \<Rightarrow> Inl e | Inr v \<Rightarrow> f v)"

text \<open>
  Python floats are modelled by exact rationals: rounding is outside this model. True
  division \<open>a / b\<close> raises on a zero divisor.
\<close>

definition py_truediv :: "rat \<Rightarrow> rat \<Rightarrow> py_error + rat" where
  "py_truediv a b = (if b = 0 then Inl ZeroDivisionError else Inr (a / b))"

text \<open>The builtins \<open>min\<close> and \<open>max\<close> raise \<open>ValueError\<close> on an empty sequence.\<close>

definition py_min :: "rat list \<Rightarrow> py_error + rat" where
  "py_min xs = (if xs = [] then Inl ValueError else Inr (Min (set xs)))"

definition py_max :: "rat list \<Rightarrow> py_error + rat" where
  "py_max xs = (if xs = [] then Inl ValueError else Inr (Max (set xs)))"

text \<open>\<open>d.get(key, default)\<close> on a dictionary kept as an association list in insertion order.\<close>

definition dict_get :: "('k \<times> 'v) list \<Rightarrow> 'k \<Rightarrow> 'v \<Rightarrow> 'v" where
  "dict_get d k dflt = (case map_of d k of None \<Rightarrow> dflt | Some v \<Rightarrow> v)"

section \<open>Record selection: \<open>DataHandler._process_data_by_mode\<close>\<close>

datatype ReadMode = SPECIFIED_COUNT | FULL_LOAD | FIRST_N | RANDOM_N

text \<open>
  The padding loop of the exact-count mode:
  \<^verbatim>\<open>for _ in range(count - total_count): result.append(first_item)\<close>
\<close>

primrec fill_loop :: "nat \<Rightarrow> 'a \<Rightarrow> 'a list \<Rightarrow> 'a list" where
  "fill_loop 0 first_item result = result"
| "fill_loop (Suc k) first_item result = fill_loop k first_item (result @ [first_item])"

text \<open>
  \<open>random.sample(population, k)\<close> belongs to Python's standard library. It is modelled
  by its selection loop over a shrinking pool: draw \<open>i\<close> picks position
  \<open>randbelow(n - i)\<close> of the pool, and the last pool entry moves into the vacated slot.
  The random source is a parameter \<open>rnd\<close>: \<open>rnd i\<close> is the raw value of draw \<open>i\<close>,
  reduced into range as \<open>randbelow\<close> does. A negative \<open>k\<close> or one beyond the
  population raises \<open>ValueError\<close>.
\<close>

fun sample_loop :: "(nat \<Rightarrow> nat) \<Rightarrow> nat \<Rightarrow> nat \<Rightarrow> 'a list \<Rightarrow> 'a list" where
  "sample_loop rnd i 0 pool = []"
| "sample_loop rnd i (Suc k) pool =
     (let j = rnd i mod length pool
      in pool ! j # sample_loop rnd (Suc i) k (butlast (pool[j := last pool])))"

definition random_sample :: "(nat \<Rightarrow> nat) \<Rightarrow> 'a list \<Rightarrow> int \<Rightarrow> py_error + 'a list" where
  "random_sample rnd population k =
     (if k < 0 \<or> int (length population) < k then Inl ValueError
      else Inr (sample_loop rnd 0 (nat k) population))"

text \<open>
  The argument \<open>count\<close> (here \<open>cnt\<close>) is \<open>Optional[int]\<close>: comparing \<open>None\<close> with the record count raises
  \<open>TypeError\<close>. The final \<open>else\<close> of the source (an unknown mode) cannot be reached
  from a \<open>ReadMode\<close> value.
\<close>

definition process_data_by_mode ::
  "(nat \<Rightarrow> nat) \<Rightarrow> 'a list \<Rightarrow> ReadMode \<Rightarrow> int option \<Rightarrow> bool \<Rightarrow> py_error + 'a list" where
  "process_data_by_mode rnd raw_data mode cnt fill_with_first =
     (let total_count = int (length raw_data) in
      if total_count = 0 then Inr []
      else case mode of
        FULL_LOAD \<Rightarrow> Inr raw_data
      | SPECIFIED_COUNT \<Rightarrow>
          (case cnt of
             None \<Rightarrow> Inl TypeError
           | Some c \<Rightarrow>
               if c \<le> total_count then Inr (py_slice_to raw_data c)
               else if fill_with_first then
                 (case py_getitem raw_data 0 of
                    Inl e \<Rightarrow> Inl e
                  | Inr first_item \<Rightarrow>
                      Inr (fill_loop (nat (c - total_count)) first_item raw_data))
               else Inr raw_data)
      | FIRST_N \<Rightarrow>
          (case cnt of
             None \<Rightarrow> Inl TypeError
           | Some c \<Rightarrow>
               if c > total_count then Inr raw_data
               else Inr (py_slice_to raw_data c))
      | RANDOM_N \<Rightarrow>
          (case cnt of
             None \<Rightarrow> Inl TypeError
           | Some c \<Rightarrow>
               if c > total_count then Inr raw_data
               else random_sample rnd raw_data c))"


section \<open>Report aggregation: \<open>RequestReportGenerator\<close>\<close>

text \<open>
  A response is a Python dictionary. The keys the program reads are optional entries of
  a record: \<open>None\<close> is an absent key. \<open>AsyncHttpClient.post\<close> fills \<open>status\<close>,
  \<open>data\<close>, \<open>headers\<close>, \<open>request_id\<close> and \<open>duration_ms\<close>; the error response built by
  the consumer fills \<open>status\<close>, \<open>error\<close>, \<open>request_id\<close> and \<open>duration_ms\<close>.
\<close>

record response =
  status :: "int option"
  data :: "string option"
  headers :: "(string \<times> string) list option"
  error :: "string option"
  request_id :: "string option"
  duration_ms :: "rat option"

text \<open>\<open>index.is_integer()\<close> and \<open>int(index)\<close>, which truncates towards zero.\<close>

definition is_integer :: "rat \<Rightarrow> bool" where
  "is_integer x = (of_int \<lfloor>x\<rfloor> = x)"

definition py_int :: "rat \<Rightarrow> int" where
  "py_int x = (if 0 \<le> x then \<lfloor>x\<rfloor> else \<lceil>x\<rceil>)"

text \<open>\<open>RequestReportGenerator._percentile\<close>.\<close>

definition percentile :: "rat list \<Rightarrow> int \<Rightarrow> py_error + rat" where
  "percentile xs p =
     (if xs = [] then Inr 0
      else
        let index = (of_int p / 100) * of_int (int (length xs) - 1) in
        if is_integer index then py_getitem xs (py_int index)
        else
          py_bind (py_getitem xs (py_int index)) (\<lambda>lower.
          py_bind (py_getitem xs (py_int index + 1)) (\<lambda>upper.
            Inr (lower + (upper - lower) * (index - of_int (py_int index))))))"

text \<open>
  The percentile as the specification words it: the rank \<open>(p / 100) * (n - 1)\<close>, the
  entry at that rank when it is integral, and otherwise the linear interpolation between
  the entries at the two neighbouring ranks.
\<close>

definition percentile_spec :: "rat list \<Rightarrow> int \<Rightarrow> rat" where
  "percentile_spec d p =
     (let index = (of_int p / 100) * (of_nat (length d) - 1);
          k = nat \<lfloor>index\<rfloor>
      in if index = of_nat k then d ! k
         else d ! k + (d ! (k + 1) - d ! k) * (index - of_nat k))"

text \<open>The statistics dictionary \<open>duration_stats\<close> (empty when no request has a positive duration).\<close>

record latency_stats =
  min_ms :: rat
  max_ms :: rat
  avg_ms :: rat
  p50_ms :: rat
  p80_ms :: rat
  p90_ms :: rat
  p95_ms :: rat
  p99_ms :: rat

text \<open>
  The summary is a formatted string. Its content is kept instead of its text: the
  fixed message of the empty report, or the total, the number of status 200, the
  success rate and, when there are statistics, the average and the 50th, 80th and 90th
  percentiles.
\<close>

datatype summary_text =
    NoRequestData
  | SummaryLine nat nat rat "(rat \<times> rat \<times> rat \<times> rat) option"

record report =
  total_requests :: nat
  status_code_counts :: "(int \<times> nat) list"
  duration_stats :: "latency_stats option"
  summary :: summary_text

text \<open>The loop of \<open>generate_report\<close> over the recorded responses.\<close>

fun count_requests ::
  "response list \<Rightarrow> (int \<times> nat) list \<Rightarrow> rat list \<Rightarrow> (int \<times> nat) list \<times> rat list" where
  "count_requests [] status_counts durations = (status_counts, durations)"
| "count_requests (req # reqs) status_counts durations =
     (let st = (case status req of None \<Rightarrow> 0 | Some s \<Rightarrow> s);
          status_counts' = AList.update st (dict_get status_counts st 0 + 1) status_counts;
          duration = (case duration_ms req of None \<Rightarrow> 0 | Some d \<Rightarrow> d)
      in count_requests reqs status_counts'
           (if 0 < duration then durations @ [duration] else durations))"

text \<open>\<open>RequestReportGenerator._generate_summary\<close>.\<close>

definition generate_summary ::
  "(int \<times> nat) list \<Rightarrow> latency_stats option \<Rightarrow> py_error + summary_text" where
  "generate_summary status_counts stats =
     (let total = sum_list (map snd status_counts);
          success_count = dict_get status_counts 200 0
      in py_bind
           (if 0 < total
            then py_bind (py_truediv (of_nat success_count) (of_nat total)) (\<lambda>q. Inr (q * 100))
            else Inr 0)
           (\<lambda>success_rate.
              Inr (SummaryLine total success_count success_rate
                     (case stats of
                        None \<Rightarrow> None
                      | Some s \<Rightarrow> Some (avg_ms s, p50_ms s, p80_ms s, p90_ms s)))))"

text \<open>The block of \<open>generate_report\<close> that fills \<open>duration_stats\<close>.\<close>

definition compute_duration_stats :: "rat list \<Rightarrow> py_error + latency_stats option" where
  "compute_duration_stats durations0 =
     (if durations0 = [] then Inr None
      else
        let durations = sort durations0 in
        py_bind (py_min durations) (\<lambda>mn.
        py_bind (py_max durations) (\<lambda>mx.
        py_bind (py_truediv (sum_list durations) (of_nat (length durations))) (\<lambda>avg.
        py_bind (percentile durations 50) (\<lambda>p50.
        py_bind (percentile durations 80) (\<lambda>p80.
        py_bind (percentile durations 90) (\<lambda>p90.
        py_bind (percentile durations 95) (\<lambda>p95.
        py_bind (percentile durations 99) (\<lambda>p99.
          Inr (Some \<lparr>min_ms = mn, max_ms = mx, avg_ms = avg, p50_ms = p50, p80_ms = p80,
                      p90_ms = p90, p95_ms = p95, p99_ms = p99\<rparr>))))))))))"

text \<open>\<open>RequestReportGenerator.generate_report\<close>, on the list \<open>self.requests\<close>.\<close>

definition generate_report :: "response list \<Rightarrow> py_error + report" where
  "generate_report requests =
     (if requests = [] then
        Inr \<lparr>total_requests = 0, status_code_counts = [], duration_stats = None,
             summary = NoRequestData\<rparr>
      else
        case count_requests requests [] [] of (status_counts, durations) \<Rightarrow>
          py_bind (compute_duration_stats durations) (\<lambda>stats.
          py_bind (generate_summary status_counts stats) (\<lambda>text.
            Inr \<lparr>total_requests = length requests, status_code_counts = status_counts,
                 duration_stats = stats, summary = text\<rparr>)))"

text \<open>
  \<open>RequestReportGenerator.print_report\<close>: the report and the requests-per-minute
  figure \<open>rpm\<close> of the printed summary line.
\<close>

definition print_report :: "response list \<Rightarrow> py_error + report \<times> rat" where
  "print_report requests =
     py_bind (generate_report requests) (\<lambda>rep.
       case duration_stats rep of
         None \<Rightarrow> Inr (rep, 0)
       | Some stats \<Rightarrow>
           py_bind (py_truediv (max_ms stats) 1000) (\<lambda>total_duration_seconds.
           py_bind (py_truediv total_duration_seconds 60) (\<lambda>total_duration_minutes.
             if 0 < total_duration_minutes
             then py_bind (py_truediv (of_nat (total_requests rep)) total_duration_minutes)
                    (\<lambda>rpm. Inr (rep, rpm))
             else Inr (rep, 0))))"

section \<open>The sink: \<open>AsyncDataWriter\<close>\<close>

text \<open>
  The writer owns a queue of pending items, in which \<open>None\<close> is the end marker put by
  \<open>stop\<close>, and a file opened for appending. Of the file the model keeps the lines
  already persisted (\<open>file_disk\<close>) and the lines written since the last flush
  (\<open>file_buffer\<close>); a flush, and the closing of the file, move the second to the
  first. Three fields are not fields of the class: \<open>writing\<close> is the item the writer
  task has taken from the queue and is writing while it is suspended in
  \<open>await f.write\<close>; \<open>write_faults\<close> says which writes fail, an entry \<open>(k, e)\<close> meaning that
  \<open>json.dumps\<close> or \<open>f.write\<close> raises \<open>e\<close> for the \<open>k\<close>-th line; \<open>flushes\<close> counts
  the calls of \<open>f.flush()\<close>. Opening and flushing the file are taken to succeed.
\<close>

datatype task_state = NoTask | TaskRunning | TaskDone | TaskFailed py_error

record 'a writer =
  buffer_size :: int
  flush_count :: int
  flush_interval :: rat
  wait_timeout :: rat
  write_queue :: "'a option list"
  writer_task :: task_state
  is_running :: bool
  total_written :: nat
  last_flush_time :: rat
  writing :: "'a option"
  write_faults :: "(nat \<times> py_error) list"
  file_buffer :: "'a list"
  file_disk :: "'a list"
  flushes :: nat

text \<open>
  \<open>AsyncDataWriter.__init__\<close>. Of the file, \<open>existing\<close> are the lines it already
  holds and \<open>faults\<close> the writes that will fail.
\<close>

definition new_writer ::
  "int \<Rightarrow> int \<Rightarrow> rat \<Rightarrow> rat \<Rightarrow> (nat \<times> py_error) list \<Rightarrow> 'a list \<Rightarrow> 'a writer" where
  "new_writer bs fc fi wt faults existing =
     \<lparr>buffer_size = bs, flush_count = fc, flush_interval = fi, wait_timeout = wt,
      write_queue = [], writer_task = NoTask, is_running = False, total_written = 0,
      last_flush_time = 0, writing = None, write_faults = faults, file_buffer = [],
      file_disk = existing, flushes = 0\<rparr>"

text \<open>\<open>asyncio.Queue.full()\<close>: a queue with \<open>maxsize <= 0\<close> is never full.\<close>

definition queue_full :: "int \<Rightarrow> 'b list \<Rightarrow> bool" where
  "queue_full maxsize q = (0 < maxsize \<and> maxsize \<le> int (length q))"

definition flush :: "'a writer \<Rightarrow> 'a writer" where
  "flush w = w\<lparr>file_disk := file_disk w @ file_buffer w, file_buffer := [],
               flushes := flushes w + 1\<rparr>"

text \<open>
  The writer task ends with the exception \<open>e\<close>: leaving \<open>async with\<close> closes the
  file, which persists what was buffered, and the exception is raised again.
\<close>

definition fail_task :: "py_error \<Rightarrow> 'a writer \<Rightarrow> 'a writer" where
  "fail_task e w = w\<lparr>file_disk := file_disk w @ file_buffer w, file_buffer := [],
                     writer_task := TaskFailed e\<rparr>"

text \<open>
  The body of \<open>_writer_loop\<close> for an item \<open>d\<close> taken from the queue, from the moment
  the task resumes after \<open>await f.write\<close>. If writing the line has failed, the
  exception is the result. Otherwise the line is in the file's buffer, it is counted
  and a flush is decided: the count condition reads \<open>self.write_queue.qsize()\<close> as the
  queue is now, the time condition reads the clock and, when it holds, resets
  \<open>last_flush_time\<close>. The clock is a parameter: \<open>clock k\<close> is the value of
  \<open>time.time()\<close> read after the \<open>k\<close>-th line has been written.
\<close>

definition count_due :: "'a writer \<Rightarrow> bool" where
  "count_due w = (0 < flush_count w \<and> flush_count w \<le> int (length (write_queue w)))"

definition time_due :: "rat \<Rightarrow> 'a writer \<Rightarrow> bool" where
  "time_due current_time w =
     (0 < flush_interval w \<and> flush_interval w \<le> current_time - last_flush_time w)"

definition write_item :: "(nat \<Rightarrow> rat) \<Rightarrow> 'a \<Rightarrow> 'a writer \<Rightarrow> py_error + 'a writer" where
  "write_item clock d w =
     (case map_of (write_faults w) (total_written w + 1) of
        Some e \<Rightarrow> Inl e
      | None \<Rightarrow>
          (let w1 = w\<lparr>file_buffer := file_buffer w @ [d],
                      total_written := total_written w + 1\<rparr>;
               current_time = clock (total_written w1);
               should_flush = (count_due w1 \<or> time_due current_time w1);
               w2 = (if time_due current_time w1 then w1\<lparr>last_flush_time := current_time\<rparr>
                     else w1)
           in Inr (if should_flush then flush w2 else w2)))"

text \<open>
  The writer task from one suspension to the next. A task that is not running does
  nothing. With an item in hand it resumes after the write: \<open>write_item\<close>, and on an
  exception the task ends. Otherwise it is in
  \<open>asyncio.wait_for(self.write_queue.get(), timeout=self.wait_timeout)\<close>: with a
  timeout that is not positive the wait is cancelled before it can take an item; on an
  empty queue it times out; the end marker leaves the loop for the final flush; an item
  is taken from the queue and its write begins, so that other tasks can put items before
  the queue size is read. (An exception of \<open>json.dumps\<close> is raised before the write
  begins; the model raises it after, with the same state left behind.)
\<close>

definition writer_iteration :: "(nat \<Rightarrow> rat) \<Rightarrow> 'a writer \<Rightarrow> 'a writer" where
  "writer_iteration clock w =
     (if writer_task w \<noteq> TaskRunning then w
      else case writing w of
        Some d \<Rightarrow>
          (case write_item clock d (w\<lparr>writing := None\<rparr>) of
             Inl e \<Rightarrow> fail_task e (w\<lparr>writing := None\<rparr>)
           | Inr w' \<Rightarrow> w')
      | None \<Rightarrow>
          if wait_timeout w \<le> 0 then w
          else case write_queue w of
            [] \<Rightarrow> w
          | None # q \<Rightarrow> (flush (w\<lparr>write_queue := q\<rparr>))\<lparr>writer_task := TaskDone\<rparr>
          | Some d # q \<Rightarrow> w\<lparr>write_queue := q, writing := Some d\<rparr>)"

text \<open>The writer task scheduled \<open>n\<close> times in a row while the other tasks are suspended.\<close>

fun writer_steps :: "(nat \<Rightarrow> rat) \<Rightarrow> nat \<Rightarrow> 'a writer \<Rightarrow> 'a writer" where
  "writer_steps clock 0 w = w"
| "writer_steps clock (Suc n) w = writer_steps clock n (writer_iteration clock w)"

text \<open>
  The writer task can do nothing more by itself: it has nothing in hand and either the
  queue is empty or the timeout is not positive.
\<close>

definition writer_idle :: "'a writer \<Rightarrow> bool" where
  "writer_idle w = (writing w = None \<and> (write_queue w = [] \<or> wait_timeout w \<le> 0))"

text \<open>
  What \<open>await self.writer_task\<close> waits for while no other task puts an item: the writer
  task runs until it has ended, normally or with an exception. A task that idles never
  ends: the result is \<open>None\<close>.
\<close>

function await_writer_task :: "(nat \<Rightarrow> rat) \<Rightarrow> 'a writer \<Rightarrow> 'a writer option" where
  "await_writer_task clock w =
     (if writer_task w \<noteq> TaskRunning then Some w
      else if writer_idle w then None
      else await_writer_task clock (writer_iteration clock w))"
  by pat_completeness auto
termination
  by (relation "measure (\<lambda>(clock, w). 2 * length (write_queue w)
                                       + (if writing w = None then 0 else 1))")
     (auto simp: writer_iteration_def writer_idle_def write_item_def fail_task_def flush_def
        Let_def split: option.splits list.splits sum.splits)

text \<open>
  A task waiting for room in a full queue (\<open>while self.write_queue.full(): await
  asyncio.sleep(0.01)\<close> in \<open>write_data\<close>, and the wait inside \<open>Queue.put\<close>): the
  writer task runs until the queue is no longer full. If the writer task has ended, or
  never takes an item, a full queue stays full and the wait never ends: the result is
  \<open>None\<close>.
\<close>

function wait_room :: "(nat \<Rightarrow> rat) \<Rightarrow> 'a writer \<Rightarrow> 'a writer option" where
  "wait_room clock w =
     (if \<not> queue_full (buffer_size w) (write_queue w) then Some w
      else if writer_task w \<noteq> TaskRunning \<or> writer_idle w then None
      else wait_room clock (writer_iteration clock w))"
  by pat_completeness auto
termination
  by (relation "measure (\<lambda>(clock, w). 2 * length (write_queue w)
                                       + (if writing w = None then 0 else 1))")
     (auto simp: writer_iteration_def writer_idle_def write_item_def fail_task_def flush_def
        Let_def split: option.splits list.splits sum.splits)

declare await_writer_task.simps [simp del] wait_room.simps [simp del]

text \<open>\<open>AsyncDataWriter.start\<close>.\<close>

definition start :: "'a writer \<Rightarrow> 'a writer" where
  "start w = (if is_running w then w else w\<lparr>is_running := True, writer_task := TaskRunning\<rparr>)"

text \<open>
  \<open>AsyncDataWriter.write_data\<close>: the result is the exception raised or the normal
  return, with the state left behind; \<open>None\<close> when the call never returns.
\<close>

definition write_data ::
  "(nat \<Rightarrow> rat) \<Rightarrow> 'a \<Rightarrow> 'a writer \<Rightarrow> ((py_error + unit) \<times> 'a writer) option" where
  "write_data clock d w =
     (if \<not> is_running w then Some (Inl RuntimeError, w)
      else case wait_room clock w of
        None \<Rightarrow> None
      | Some w' \<Rightarrow> Some (Inr (), w'\<lparr>write_queue := write_queue w' @ [Some d]\<rparr>))"

text \<open>
  \<open>AsyncDataWriter.stop\<close>: put the end marker, wait for the writer task, clear the
  flag. If the writer task has ended with an exception, \<open>await self.writer_task\<close> raises
  it and the flag stays set. The result is \<open>None\<close> when the call never returns.
\<close>

definition stop ::
  "(nat \<Rightarrow> rat) \<Rightarrow> 'a writer \<Rightarrow> ((py_error + unit) \<times> 'a writer) option" where
  "stop clock w =
     (if \<not> is_running w then Some (Inr (), w)
      else case wait_room clock w of
        None \<Rightarrow> None
      | Some w1 \<Rightarrow>
          (case await_writer_task clock (w1\<lparr>write_queue := write_queue w1 @ [None]\<rparr>) of
             None \<Rightarrow> None
           | Some w2 \<Rightarrow>
               (case writer_task w2 of
                  TaskFailed e \<Rightarrow> Some (Inl e, w2)
                | _ \<Rightarrow> Some (Inr (), w2\<lparr>is_running := False\<rparr>))))"

text \<open>
  A caller that hands the items of a list to \<open>write_data\<close> one after the other. Before
  the \<open>i\<close>-th call the writer task is scheduled as many times as the schedule \<open>sched\<close>
  says (not at all once the schedule is used up): the schedule and the clock together
  fix when the count and time conditions are evaluated and which of them fire.
\<close>

fun write_all ::
  "(nat \<Rightarrow> rat) \<Rightarrow> nat list \<Rightarrow> 'a list \<Rightarrow> 'a writer \<Rightarrow> ((py_error + unit) \<times> 'a writer) option" where
  "write_all clock sched [] w = Some (Inr (), w)"
| "write_all clock sched (d # ds) w =
     (case write_data clock d (writer_steps clock (case sched of [] \<Rightarrow> 0 | k # _ \<Rightarrow> k) w) of
        None \<Rightarrow> None
      | Some (Inl e, w') \<Rightarrow> Some (Inl e, w')
      | Some (Inr u, w') \<Rightarrow> write_all clock (tl sched) ds w')"

text \<open>
  The invariant of a started and working writer before \<open>stop\<close>: the task runs, its
  timeout is positive, no write fails, no end marker is queued, and the lines persisted,
  the lines buffered, the item being written and the items queued make up, in this
  order, the \<open>content\<close> handed over so far; \<open>n0\<close> is the number of lines the file held
  when it was opened.
\<close>

definition sink_holds :: "nat \<Rightarrow> 'a writer \<Rightarrow> 'a list \<Rightarrow> bool" where
  "sink_holds n0 w content =
     (is_running w \<and> writer_task w = TaskRunning \<and> 0 < wait_timeout w
      \<and> write_faults w = [] \<and> None \<notin> set (write_queue w)
      \<and> file_disk w @ file_buffer w @ (case writing w of None \<Rightarrow> [] | Some d \<Rightarrow> [d])
           @ map the (write_queue w) = content
      \<and> n0 + total_written w = length (file_disk w) + length (file_buffer w))"

section \<open>The dispatcher: \<open>RESTInferenceClient.http_inference_consumer\<close>\<close>

text \<open>
  What the consumer returns and what it hands to the sink are dictionaries with the keys
  \<open>worker_id\<close>, \<open>request_num\<close>, \<open>request_id\<close>, then \<open>response\<close> or \<open>error\<close>, and
  for the sink a \<open>timestamp\<close>. An absent key is \<open>None\<close>.
\<close>

record entry =
  worker_id :: nat
  request_num :: nat
  entry_request_id :: string
  entry_response :: "response option"
  entry_error :: "string option"
  timestamp :: "rat option"

text \<open>
  The status and the duration an entry carries, which sit in its \<open>response\<close> when it
  has one.
\<close>

definition entry_status :: "entry \<Rightarrow> int option" where
  "entry_status e = (case entry_response e of None \<Rightarrow> None | Some r \<Rightarrow> status r)"

definition entry_duration_ms :: "entry \<Rightarrow> rat option" where
  "entry_duration_ms e = (case entry_response e of None \<Rightarrow> None | Some r \<Rightarrow> duration_ms r)"

text \<open>
  The part of the client the consumer changes: the responses recorded by the report
  generator and the optional writer.
\<close>

record client =
  requests :: "response list"
  response_writer :: "entry writer option"

text \<open>
  \<open>str(e)\<close>. A transport error carries its text; \<open>str(KeyError('status'))\<close> is the
  quoted key; the other texts stand for the messages of the source.
\<close>

fun py_str :: "py_error \<Rightarrow> string" where
  "py_str (TransportError msg) = msg"
| "py_str KeyError = [CHR 0x27] @ ''status'' @ [CHR 0x27]"
| "py_str RuntimeError = ''writer not started''"
| "py_str TypeError = ''TypeError''"
| "py_str ValueError = ''ValueError''"
| "py_str IndexError = ''IndexError''"
| "py_str ZeroDivisionError = ''division by zero''"
| "py_str UnicodeEncodeError = ''UnicodeEncodeError''"
| "py_str OSError = ''OSError''"

text \<open>\<open>RequestReportGenerator.add_request\<close> on the client's report generator.\<close>

definition add_request :: "response \<Rightarrow> client \<Rightarrow> client" where
  "add_request r c = c\<lparr>requests := requests c @ [r]\<rparr>"

text \<open>\<open>if self.response_writer: await self.response_writer.write_data(x)\<close>.\<close>

definition save_entry ::
  "(nat \<Rightarrow> rat) \<Rightarrow> entry \<Rightarrow> client \<Rightarrow> ((py_error + unit) \<times> client) option" where
  "save_entry clock x c =
     (case response_writer c of
        None \<Rightarrow> Some (Inr (), c)
      | Some w \<Rightarrow>
          (case write_data clock x w of
             None \<Rightarrow> None
           | Some (r, w') \<Rightarrow> Some (r, c\<lparr>response_writer := Some w'\<rparr>)))"

text \<open>
  The \<open>except Exception as e\<close> branch of the consumer. An exception raised inside it,
  by \<open>write_data\<close>, leaves the consumer.
\<close>

definition consumer_except ::
  "(nat \<Rightarrow> rat) \<Rightarrow> rat \<Rightarrow> py_error \<Rightarrow> nat \<Rightarrow> nat \<Rightarrow> client
     \<Rightarrow> ((py_error + entry) \<times> client) option" where
  "consumer_except clock now e wid num c =
     (let error_response =
            \<lparr>status = Some 500, data = None, headers = None, error = Some (py_str e),
             request_id = Some ''unknown'', duration_ms = Some 0\<rparr>;
          c1 = add_request error_response c;
          error_data =
            \<lparr>worker_id = wid, request_num = num, entry_request_id = ''unknown'',
             entry_response = None, entry_error = Some (py_str e), timestamp = Some now\<rparr>
      in case save_entry clock error_data c1 of
           None \<Rightarrow> None
         | Some (Inl e', c2) \<Rightarrow> Some (Inl e', c2)
         | Some (Inr u, c2) \<Rightarrow> Some (Inr (error_data\<lparr>timestamp := None\<rparr>), c2))"

text \<open>
  The consumer. \<open>attempt\<close> is the outcome of building the headers and of
  \<open>client.post\<close>: a response, or the exception raised. \<open>now\<close> is the reading of
  \<open>time.time()\<close> for the timestamp. Opening and closing the HTTP session around the
  \<open>try\<close> is taken to succeed. The result is \<open>None\<close> when the call never returns.
\<close>

definition http_inference_consumer ::
  "(nat \<Rightarrow> rat) \<Rightarrow> rat \<Rightarrow> py_error + response \<Rightarrow> nat \<Rightarrow> nat \<Rightarrow> client
     \<Rightarrow> ((py_error + entry) \<times> client) option" where
  "http_inference_consumer clock now attempt wid num c =
     (case attempt of
        Inl e \<Rightarrow> consumer_except clock now e wid num c
      | Inr resp \<Rightarrow>
          (let rid = (case request_id resp of None \<Rightarrow> ''unknown'' | Some i \<Rightarrow> i) in
           case status resp of
             None \<Rightarrow> consumer_except clock now KeyError wid num c
           | Some st \<Rightarrow>
               (let c1 = add_request resp c;
                    response_data =
                      \<lparr>worker_id = wid, request_num = num, entry_request_id = rid,
                       entry_response = Some resp, entry_error = None, timestamp = Some now\<rparr>
                in case save_entry clock response_data c1 of
                     None \<Rightarrow> None
                   | Some (Inl e, c2) \<Rightarrow> consumer_except clock now e wid num c2
                   | Some (Inr u, c2) \<Rightarrow> Some (Inr (response_data\<lparr>timestamp := None\<rparr>), c2))))"

section \<open>The pipeline: \<open>DataHandler.producer_consumer_executor\<close>\<close>

text \<open>
  The executor creates one producer task and \<open>max_workers\<close> consumer tasks on one
  bounded queue, and waits for all of them (\<open>asyncio.gather\<close>). The state holds the
  records not yet read (\<open>source\<close>, the well-formed lines of the file), the queue, in
  which \<open>None\<close> is the end marker, every worker's own counter and status, the list
  \<open>results\<close> and the state \<open>env\<close> of the consumer function.
\<close>

datatype worker_status = Active | Exited | Stuck

record worker =
  processed_count :: nat
  wstatus :: worker_status

record ('a, 'r, 's) pipeline =
  source :: "'a list"
  producer_done :: bool
  data_queue :: "'a option list"
  queue_maxsize :: int
  workers :: "worker list"
  results :: "'r list"
  env :: 's

text \<open>
  A round of the producer (\<open>load_data_with_queue\<close>): suspended while the queue is
  full; otherwise it puts the next record, or, at the end of the source, the single end
  marker, and is done.
\<close>

definition producer_step :: "('a, 'r, 's) pipeline \<Rightarrow> ('a, 'r, 's) pipeline option" where
  "producer_step s =
     (if producer_done s \<or> queue_full (queue_maxsize s) (data_queue s) then None
      else case source s of
        [] \<Rightarrow> Some (s\<lparr>data_queue := data_queue s @ [None], producer_done := True\<rparr>)
      | d # ds \<Rightarrow> Some (s\<lparr>source := ds, data_queue := data_queue s @ [Some d]\<rparr>))"

text \<open>
  A round of worker \<open>i\<close> (\<open>_consumer\<close>): suspended on an empty queue; on the end
  marker it leaves its loop, and the marker is not put back; on a record it calls the
  consumer function with \<open>processed_count + 1\<close> as \<open>request_num\<close>, and appends the
  result and counts only if the call returns without exception. A call that never
  returns leaves the worker stuck.
\<close>

definition consumer_step ::
  "('a \<Rightarrow> nat \<Rightarrow> nat \<Rightarrow> 's \<Rightarrow> ((py_error + 'r) \<times> 's) option) \<Rightarrow> nat
     \<Rightarrow> ('a, 'r, 's) pipeline \<Rightarrow> ('a, 'r, 's) pipeline option" where
  "consumer_step consumer_func i s =
     (if length (workers s) \<le> i then None
      else
        let wk = workers s ! i in
        if wstatus wk \<noteq> Active then None
        else case data_queue s of
          [] \<Rightarrow> None
        | None # q \<Rightarrow>
            Some (s\<lparr>data_queue := q, workers := (workers s)[i := wk\<lparr>wstatus := Exited\<rparr>]\<rparr>)
        | Some d # q \<Rightarrow>
            (case consumer_func d i (processed_count wk + 1) (env s) of
               None \<Rightarrow>
                 Some (s\<lparr>data_queue := q, workers := (workers s)[i := wk\<lparr>wstatus := Stuck\<rparr>]\<rparr>)
             | Some (Inl e, env') \<Rightarrow> Some (s\<lparr>data_queue := q, env := env'\<rparr>)
             | Some (Inr r, env') \<Rightarrow>
                 Some (s\<lparr>data_queue := q, env := env', results := results s @ [r],
                         workers :=
                           (workers s)[i := wk\<lparr>processed_count := processed_count wk + 1\<rparr>]\<rparr>)))"

text \<open>
  The event loop picks the task that runs next: a schedule is a list of such choices. A
  task chosen while it is suspended stays where it is.
\<close>

datatype action = Produce | Consume nat

definition step ::
  "('a \<Rightarrow> nat \<Rightarrow> nat \<Rightarrow> 's \<Rightarrow> ((py_error + 'r) \<times> 's) option) \<Rightarrow> action
     \<Rightarrow> ('a, 'r, 's) pipeline \<Rightarrow> ('a, 'r, 's) pipeline" where
  "step consumer_func a s =
     (case (case a of Produce \<Rightarrow> producer_step s | Consume i \<Rightarrow> consumer_step consumer_func i s) of
        None \<Rightarrow> s
      | Some s' \<Rightarrow> s')"

fun run ::
  "('a \<Rightarrow> nat \<Rightarrow> nat \<Rightarrow> 's \<Rightarrow> ((py_error + 'r) \<times> 's) option) \<Rightarrow> action list
     \<Rightarrow> ('a, 'r, 's) pipeline \<Rightarrow> ('a, 'r, 's) pipeline" where
  "run consumer_func [] s = s"
| "run consumer_func (a # sched) s = run consumer_func sched (step consumer_func a s)"

text \<open>The state in which the executor starts its tasks.\<close>

definition start_pipeline :: "'a list \<Rightarrow> int \<Rightarrow> int \<Rightarrow> 's \<Rightarrow> ('a, 'r, 's) pipeline" where
  "start_pipeline records bsize max_workers e =
     \<lparr>source = records, producer_done = False, data_queue = [], queue_maxsize = bsize,
      workers = replicate (nat max_workers) \<lparr>processed_count = 0, wstatus = Active\<rparr>,
      results = [], env = e\<rparr>"

text \<open>\<open>asyncio.gather\<close> returns when the producer and every consumer have ended.\<close>

definition finished :: "('a, 'r, 's) pipeline \<Rightarrow> bool" where
  "finished s = (producer_done s \<and> list_all (\<lambda>wk. wstatus wk = Exited) (workers s))"

text \<open>
  \<open>producer_consumer_executor\<close> under a schedule: the results it returns, or \<open>None\<close>
  if it has not returned when the schedule ends.
\<close>

definition producer_consumer_executor ::
  "('a \<Rightarrow> nat \<Rightarrow> nat \<Rightarrow> 's \<Rightarrow> ((py_error + 'r) \<times> 's) option) \<Rightarrow> action list
     \<Rightarrow> 'a list \<Rightarrow> int \<Rightarrow> int \<Rightarrow> 's \<Rightarrow> 'r list option" where
  "producer_consumer_executor consumer_func sched records bsize max_workers e =
     (let s = run consumer_func sched (start_pipeline records bsize max_workers e)
      in if finished s then Some (results s) else None)"

text \<open>
  The consumer function the client passes to the executor: \<open>post\<close> gives, for a request
  body, what the HTTP call yields, and \<open>now\<close> the reading of the clock for the
  timestamp of worker \<open>i\<close>'s request number \<open>n\<close>.
\<close>

definition client_consumer ::
  "(nat \<Rightarrow> rat) \<Rightarrow> (nat \<Rightarrow> nat \<Rightarrow> rat) \<Rightarrow> ('a \<Rightarrow> py_error + response)
     \<Rightarrow> 'a \<Rightarrow> nat \<Rightarrow> nat \<Rightarrow> client \<Rightarrow> ((py_error + entry) \<times> client) option" where
  "client_consumer clock now post request_body wid num c =
     http_inference_consumer clock (now wid num) (post request_body) wid num c"

text \<open>
  The end markers of a run: the one the producer has still to put, those in the queue,
  and those that made a worker leave its loop.
\<close>

definition end_markers :: "('a, 'r, 's) pipeline \<Rightarrow> nat" where
  "end_markers s =
     (if producer_done s then 0 else 1)
     + length (filter (\<lambda>x. x = None) (data_queue s))
     + length (filter (\<lambda>wk. wstatus wk = Exited) (workers s))"

text \<open>
  The numbering of the results: every result names a worker of the pool, and the
  results of worker \<open>i\<close>, in the order of their completion, carry the request numbers
  from 1 up to that worker's counter.
\<close>

definition numbered :: "('a, entry, 's) pipeline \<Rightarrow> bool" where
  "numbered s =
     (list_all (\<lambda>x. worker_id x < length (workers s)) (results s)
      \<and> list_all (\<lambda>i. map request_num (filter (\<lambda>x. worker_id x = i) (results s)) =
                         [1..<Suc (processed_count (workers s ! i))])
           [0..<length (workers s)])"

text \<open>
  The entry the consumer returns for an attempt when its write to the sink succeeds:
  the dictionary of the \<open>try\<close> branch for a response with a status, that of the
  \<open>except\<close> branch otherwise.
\<close>

definition outcome_entry :: "py_error + response \<Rightarrow> nat \<Rightarrow> nat \<Rightarrow> entry" where
  "outcome_entry attempt wid num =
     (case attempt of
        Inl e \<Rightarrow>
          \<lparr>worker_id = wid, request_num = num, entry_request_id = ''unknown'',
           entry_response = None, entry_error = Some (py_str e), timestamp = None\<rparr>
      | Inr resp \<Rightarrow>
          (case status resp of
             None \<Rightarrow>
               \<lparr>worker_id = wid, request_num = num, entry_request_id = ''unknown'',
                entry_response = None, entry_error = Some (py_str KeyError),
                timestamp = None\<rparr>
           | Some st \<Rightarrow>
               \<lparr>worker_id = wid, request_num = num,
                entry_request_id = (case request_id resp of None \<Rightarrow> ''unknown'' | Some i \<Rightarrow> i),
                entry_response = Some resp, entry_error = None, timestamp = None\<rparr>))"

text \<open>
  A client whose writes to the sink return: it has no writer, or its writer is started
  and working (\<open>sink_holds\<close>, for the lines the writer holds).
\<close>

definition client_ready :: "nat \<Rightarrow> client \<Rightarrow> bool" where
  "client_ready n0 c =
     (case response_writer c of
        None \<Rightarrow> True
      | Some w \<Rightarrow>
          sink_holds n0 w
            (file_disk w @ file_buffer w @ (case writing w of None \<Rightarrow> [] | Some d \<Rightarrow> [d])
               @ map the (write_queue w)))"

text \<open>
  The invariant of a run with a single worker and a ready client: the records split
  into those the worker has taken (\<open>cs\<close>), those in the queue (\<open>qs\<close>) and those not
  yet read; the queue holds \<open>qs\<close> in order, followed by the end marker once the producer
  is done and until the worker has read it; the worker has counted the records it has
  taken, and the results are, in order, the entries of those records, the \<open>i\<close>-th
  numbered \<open>i\<close>.
\<close>

definition serial_run ::
  "('a \<Rightarrow> py_error + response) \<Rightarrow> nat \<Rightarrow> 'a list \<Rightarrow> ('a, entry, client) pipeline \<Rightarrow> bool" where
  "serial_run post n0 records s =
     (\<exists>cs qs.
        records = cs @ qs @ source s
        \<and> length (workers s) = 1
        \<and> data_queue s =
            map Some qs
            @ (if producer_done s \<and> wstatus (workers s ! 0) = Active then [None] else [])
        \<and> (if producer_done s then source s = [] else wstatus (workers s ! 0) = Active)
        \<and> (if wstatus (workers s ! 0) = Exited then qs = [] else wstatus (workers s ! 0) = Active)
        \<and> processed_count (workers s ! 0) = length cs
        \<and> results s = map (\<lambda>(i, d). outcome_entry (post d) 0 (Suc i)) (enumerate 0 cs)
        \<and> client_ready n0 (env s))"

section \<open>Properties of record selection\<close>

lemma fill_loop_replicate: "fill_loop k x res = res @ replicate k x"
  by (induction k arbitrary: res) (simp_all add: replicate_app_Cons_same)

lemma length_sample_loop: "length (sample_loop rnd i k pool) = k"
  by (induction k arbitrary: i pool) (simp_all add: Let_def)

text \<open>One draw removes exactly the drawn entry from the pool.\<close>

lemma mset_pool_step:
  assumes "j < length pool"
  shows "add_mset (pool ! j) (mset (butlast (pool[j := last pool]))) = mset pool"
proof (cases pool rule: rev_cases)
  case Nil
  with assms show ?thesis by simp
next
  case (snoc ys l)
  show ?thesis
  proof (cases "j = length ys")
    case True
    with snoc show ?thesis by simp
  next
    case False
    with assms snoc have j: "j < length ys" by simp
    then have "ys ! j \<in># mset ys" by simp
    with j snoc show ?thesis
      by (simp add: list_update_append nth_append mset_update)
  qed
qed

lemma mset_sample_loop:
  "k \<le> length pool \<Longrightarrow> mset (sample_loop rnd i k pool) \<subseteq># mset pool"
proof (induction k arbitrary: i pool)
  case 0
  then show ?case by simp
next
  case (Suc k)
  define j where "j = rnd i mod length pool"
  define pool' where "pool' = butlast (pool[j := last pool])"
  from Suc.prems have ne: "0 < length pool" by (cases pool) simp_all
  then have j: "j < length pool" by (simp add: j_def)
  have "k \<le> length pool'" using Suc.prems by (simp add: pool'_def)
  then have "mset (sample_loop rnd (Suc i) k pool') \<subseteq># mset pool'" by (rule Suc.IH)
  then have "add_mset (pool ! j) (mset (sample_loop rnd (Suc i) k pool'))
               \<subseteq># add_mset (pool ! j) (mset pool')" by simp
  also have "add_mset (pool ! j) (mset pool') = mset pool"
    unfolding pool'_def using j by (rule mset_pool_step)
  finally show ?case by (simp add: Let_def j_def pool'_def)
qed

text \<open>
  Claim C7. In exact-count (\<open>SPECIFIED_COUNT\<close>) mode on a non-empty source, for a
  requested count \<open>n\<close>: if the source holds at least \<open>n\<close> records the result is its
  first \<open>n\<close> records in source order; if it holds fewer and filling is enabled, the
  result is the whole source followed by copies of its first record up to length \<open>n\<close>;
  if filling is disabled, the short source is returned as it is.
\<close>

theorem exact_count_mode:
  assumes "raw_data \<noteq> []" and "0 \<le> n"
  shows "process_data_by_mode rnd raw_data SPECIFIED_COUNT (Some n) fill =
           Inr (if n \<le> int (length raw_data) then take (nat n) raw_data
                else if fill then raw_data @ replicate (nat n - length raw_data) (raw_data ! 0)
                else raw_data)"
  using assms
  by (auto simp: process_data_by_mode_def py_slice_to_def py_getitem_def fill_loop_replicate
      Let_def nat_diff_distrib)

text \<open>Three records requested as five: the three records, then two copies of the first.\<close>

theorem exact_count_mode_witness:
  "[''r0'', ''r1'', ''r2''] \<noteq> [] \<and> (0::int) \<le> 5 \<and>
   process_data_by_mode (\<lambda>i. 0) [''r0'', ''r1'', ''r2''] SPECIFIED_COUNT (Some 5) True =
     Inr [''r0'', ''r1'', ''r2'', ''r0'', ''r0'']"
  using exact_count_mode [of "[''r0'', ''r1'', ''r2'']" 5 "\<lambda>i. 0" True]
  by (simp add: numeral_eq_Suc)

text \<open>
  Claim C8. In first-n and random-n modes on a non-empty source, for a requested count
  \<open>n\<close>: if \<open>n\<close> exceeds the number of records, the result is all records (no failure);
  otherwise the result has exactly \<open>n\<close> items, in first-n mode the first \<open>n\<close> records,
  and in random-n mode a selection without replacement: as a multiset it is contained
  in the source, so an item repeats only as often as the source repeats it.
\<close>

theorem first_n_random_n_mode:
  assumes "raw_data \<noteq> []" and "0 \<le> n"
  shows "(\<exists>res. process_data_by_mode rnd raw_data FIRST_N (Some n) fill = Inr res
            \<and> (if int (length raw_data) < n then res = raw_data
                else res = take (nat n) raw_data \<and> length res = nat n))
         \<and> (\<exists>res. process_data_by_mode rnd raw_data RANDOM_N (Some n) fill = Inr res
                \<and> (if int (length raw_data) < n then res = raw_data
                    else length res = nat n \<and> mset res \<subseteq># mset raw_data))"
  using assms
  by (auto simp: process_data_by_mode_def py_slice_to_def random_sample_def Let_def
      length_sample_loop mset_sample_loop)

theorem first_n_random_n_mode_witness:
  "[10, 20, 30, 40, 50 :: nat] \<noteq> [] \<and> (0::int) \<le> 3 \<and>
   process_data_by_mode (\<lambda>i. 7 * i + 3) [10, 20, 30, 40, 50 :: nat] FIRST_N (Some 3) True =
     Inr [10, 20, 30] \<and>
   (\<exists>res. process_data_by_mode (\<lambda>i. 7 * i + 3) [10, 20, 30, 40, 50 :: nat] RANDOM_N (Some 3) True =
            Inr res
       \<and> length res = 3 \<and> mset res \<subseteq># mset [10, 20, 30, 40, 50 :: nat])"
  using first_n_random_n_mode [of "[10, 20, 30, 40, 50 :: nat]" 3 "\<lambda>i. 7 * i + 3" True]
  by (simp add: take_Suc_conv_app_nth eval_nat_numeral)

section \<open>Properties of the report\<close>

lemma percentile_index_bounds:
  assumes "xs \<noteq> []" "0 \<le> p" "p \<le> 100"
  defines "index \<equiv> (of_int p / 100) * (of_int (int (length xs) - 1) :: rat)"
  shows "0 \<le> index \<and> index \<le> of_int (int (length xs) - 1)"
proof -
  have n: "0 \<le> (of_int (int (length xs) - 1) :: rat)"
    using assms(1) by (cases xs) simp_all
  have f0: "0 \<le> (of_int p / 100 :: rat)" using assms(2) by simp
  have f1: "(of_int p / 100 :: rat) \<le> 1" using assms(3) by simp
  have "0 \<le> index" unfolding index_def using f0 n by (rule mult_nonneg_nonneg)
  moreover have "index \<le> of_int (int (length xs) - 1)"
    unfolding index_def using mult_right_mono [OF f1 n] by simp
  ultimately show ?thesis by simp
qed

lemma floor_next_in_range:
  fixes x :: rat
  assumes "x \<le> of_int m" "of_int \<lfloor>x\<rfloor> \<noteq> x"
  shows "\<lfloor>x\<rfloor> + 1 \<le> m"
proof -
  have "x \<noteq> of_int m" using assms(2) by auto
  with assms(1) have "x < of_int m" by simp
  then have "\<lfloor>x\<rfloor> < m" by (simp add: floor_less_iff)
  then show ?thesis by simp
qed

lemma percentile_refines:
  assumes "xs \<noteq> []" "0 \<le> p" "p \<le> 100"
  shows "percentile xs p = Inr (percentile_spec xs p)"
proof -
  define index :: rat where "index = (of_int p / 100) * of_int (int (length xs) - 1)"
  define k where "k = \<lfloor>index\<rfloor>"
  have ib: "0 \<le> index" "index \<le> of_int (int (length xs) - 1)"
    unfolding index_def using percentile_index_bounds [OF assms] by simp_all
  have pi: "py_int index = k" using ib(1) by (simp add: py_int_def k_def)
  have k0: "0 \<le> k" using ib(1) by (simp add: k_def)
  have "of_int k \<le> index" by (simp add: k_def)
  from this ib(2) have "(of_int k :: rat) \<le> of_int (int (length xs) - 1)"
    by (rule order_trans)
  then have k1: "k < int (length xs)" by simp
  have index': "(of_int p / 100) * (of_nat (length xs) - 1) = index"
    by (simp add: index_def)
  have ofk: "(of_nat (nat k) :: rat) = of_int k" using k0 by simp
  show ?thesis
  proof (cases "is_integer index")
    case True
    then have "of_int \<lfloor>index\<rfloor> = index" unfolding is_integer_def .
    then have "index = of_int k" unfolding k_def by (rule sym)
    with True k0 k1 assms(1) show ?thesis
      unfolding percentile_def percentile_spec_def Let_def index' index_def [symmetric] pi
        k_def [symmetric] ofk
      by (simp add: py_getitem_def)
  next
    case False
    then have ne: "of_int \<lfloor>index\<rfloor> \<noteq> index" unfolding is_integer_def .
    from floor_next_in_range [OF ib(2) ne] have k2: "k + 1 < int (length xs)"
      by (simp add: k_def)
    have ne': "index \<noteq> of_int k" unfolding k_def using ne by (rule not_sym)
    have nk: "nat (k + 1) = nat k + 1" using k0 by simp
    from False k0 k1 k2 assms(1) ne' show ?thesis
      unfolding percentile_def percentile_spec_def Let_def index' index_def [symmetric] pi
        k_def [symmetric] ofk
      by (simp add: py_getitem_def py_bind_def nk)
  qed
qed

text \<open>Between two ranks of a sorted list the interpolated value lies between the two entries.\<close>

lemma percentile_spec_bracket:
  assumes "d \<noteq> []" "sorted d" "0 \<le> p" "p \<le> 100"
  defines "index \<equiv> (of_int p / 100) * (of_nat (length d) - 1 :: rat)"
  defines "k \<equiv> nat \<lfloor>index\<rfloor>"
  assumes ni: "index \<noteq> of_nat k"
  shows "k + 1 < length d \<and> d ! k \<le> percentile_spec d p \<and> percentile_spec d p \<le> d ! (k + 1)"
proof -
  have idx: "index = (of_int p / 100) * of_int (int (length d) - 1)"
    by (simp add: index_def)
  have ib: "0 \<le> index" "index \<le> of_int (int (length d) - 1)"
    unfolding idx using percentile_index_bounds [OF assms(1,3,4)] by simp_all
  have k0: "0 \<le> \<lfloor>index\<rfloor>" using ib(1) by simp
  then have ofk: "(of_nat k :: rat) = of_int \<lfloor>index\<rfloor>" by (simp add: k_def)
  from ni have "index \<noteq> of_int \<lfloor>index\<rfloor>" unfolding ofk .
  then have ne: "of_int \<lfloor>index\<rfloor> \<noteq> index" by (rule not_sym)
  have "\<lfloor>index\<rfloor> + 1 \<le> int (length d) - 1"
    using ib(2) ne by (rule floor_next_in_range)
  with k0 have "int (nat \<lfloor>index\<rfloor>) + 1 < int (length d)" by linarith
  then have k2: "k + 1 < length d" unfolding k_def by linarith
  have le: "d ! k \<le> d ! (k + 1)"
    using assms(2) k2 by (simp add: sorted_nth_mono)
  have f0: "0 \<le> index - of_nat k" unfolding ofk by simp
  have f1: "index - of_nat k \<le> 1" unfolding ofk by linarith
  have val: "percentile_spec d p = d ! k + (d ! (k + 1) - d ! k) * (index - of_nat k)"
    using ni unfolding percentile_spec_def Let_def index_def [symmetric] k_def [symmetric]
    by simp
  have g0: "0 \<le> (d ! (k + 1) - d ! k) * (index - of_nat k)"
    using le f0 by simp
  have "(d ! (k + 1) - d ! k) * (index - of_nat k) \<le> (d ! (k + 1) - d ! k) * 1"
    using le f1 by (intro mult_left_mono) simp_all
  then have g1: "d ! k + (d ! (k + 1) - d ! k) * (index - of_nat k) \<le> d ! (k + 1)" by simp
  show ?thesis using k2 g0 g1 unfolding val by simp
qed

lemma percentile_singleton: "0 \<le> p \<Longrightarrow> p \<le> 100 \<Longrightarrow> percentile [x] p = Inr x"
  by (simp add: percentile_def is_integer_def py_int_def py_getitem_def)


text \<open>
  Claim C6. For a non-empty sorted list of durations and a percentile \<open>p\<close> among 50,
  80, 90, 95 and 99, \<open>_percentile\<close> returns (without an index error) the entry at rank
  \<open>(p / 100) * (n - 1)\<close> when that rank is integral, and otherwise the linear
  interpolation between the entries at the two neighbouring ranks, a value between
  them. The 50th percentile of 10, 20, 30, 40 is 25, and every percentile of the single
  duration 5 is 5. Durations are exact rationals here.
\<close>

theorem percentile_linear_interpolation:
  assumes "d \<noteq> []" and "sorted d" and "p \<in> {50, 80, 90, 95, 99}"
  shows "percentile d p = Inr (percentile_spec d p)
       \<and> (let index = (of_int p / 100) * (of_nat (length d) - 1 :: rat);
               k = nat \<lfloor>index\<rfloor>
          in if index = of_nat k then k < length d \<and> percentile_spec d p = d ! k
             else k + 1 < length d \<and> d ! k \<le> percentile_spec d p
                  \<and> percentile_spec d p \<le> d ! (k + 1))
       \<and> percentile [10, 20, 30, 40] 50 = Inr 25
       \<and> percentile [5] p = Inr 5"
proof -
  from assms(3) have p: "0 \<le> p" "p \<le> 100" by auto
  define index :: rat where "index = (of_int p / 100) * (of_nat (length d) - 1)"
  define k where "k = nat \<lfloor>index\<rfloor>"
  have a: "percentile d p = Inr (percentile_spec d p)"
    using assms(1) p by (rule percentile_refines)
  have b: "if index = of_nat k then k < length d \<and> percentile_spec d p = d ! k
           else k + 1 < length d \<and> d ! k \<le> percentile_spec d p
                \<and> percentile_spec d p \<le> d ! (k + 1)"
  proof (cases "index = of_nat k")
    case True
    have "index \<le> of_int (int (length d) - 1)"
      using percentile_index_bounds [OF assms(1) p] by (simp add: index_def)
    with True have "(of_nat k :: rat) \<le> of_int (int (length d) - 1)" by simp
    then have "(of_int (int k) :: rat) \<le> of_int (int (length d) - 1)" by simp
    then have "int k \<le> int (length d) - 1" by (simp only: of_int_le_iff)
    then have "k < length d" by linarith
    moreover have "percentile_spec d p = d ! k"
      using True unfolding percentile_spec_def Let_def index_def [symmetric] k_def [symmetric]
      by simp
    ultimately show ?thesis using True by simp
  next
    case False
    then show ?thesis
      using percentile_spec_bracket [OF assms(1,2) p] unfolding index_def k_def by simp
  qed
  have c: "percentile [10, 20, 30, 40] 50 = Inr 25" by code_simp
  have e: "percentile [5] p = Inr 5" using p by (rule percentile_singleton)
  from a b c e show ?thesis unfolding Let_def index_def k_def by simp
qed

theorem percentile_linear_interpolation_witness:
  "[10, 20, 30, 40 :: rat] \<noteq> [] \<and> sorted [10, 20, 30, 40 :: rat] \<and> (50::int) \<in> {50, 80, 90, 95, 99}
   \<and> percentile [10, 20, 30, 40] 50 = Inr (percentile_spec [10, 20, 30, 40] 50)
   \<and> percentile_spec [10, 20, 30, 40] 50 = 25
   \<and> percentile [5] 50 = Inr 5"
proof -
  have s: "percentile_spec [10, 20, 30, 40] 50 = 25" by code_simp
  have h: "[10, 20, 30, 40 :: rat] \<noteq> []" "sorted [10, 20, 30, 40 :: rat]"
    "(50::int) \<in> {50, 80, 90, 95, 99}" by simp_all
  from percentile_linear_interpolation [OF h] s h show ?thesis by simp
qed

text \<open>None of the steps of report generation raises.\<close>

lemma compute_duration_stats_Inr:
  "\<exists>s. compute_duration_stats ds = Inr s \<and>
       (case s of None \<Rightarrow> ds = [] | Some st \<Rightarrow> ds \<noteq> [] \<and> max_ms st = Max (set ds))"
proof (cases "ds = []")
  case True
  then show ?thesis by (simp add: compute_duration_stats_def)
next
  case False
  then have ne: "sort ds \<noteq> []" by (metis length_sort length_0_conv)
  have len: "(of_nat (length (sort ds)) :: rat) \<noteq> 0" using False by simp
  have pc: "\<And>p. 0 \<le> p \<Longrightarrow> p \<le> 100 \<Longrightarrow> percentile (sort ds) p = Inr (percentile_spec (sort ds) p)"
    using ne by (rule percentile_refines)
  show ?thesis
    using False ne len
    by (simp add: compute_duration_stats_def Let_def py_bind_def py_min_def py_max_def
        py_truediv_def pc)
qed

lemma generate_summary_Inr: "\<exists>t. generate_summary sc stats = Inr t"
  by (simp add: generate_summary_def Let_def py_bind_def py_truediv_def)

lemma generate_report_Inr:
  "\<exists>rep. generate_report reqs = Inr rep"
proof (cases "reqs = []")
  case True
  then show ?thesis by (simp add: generate_report_def)
next
  case False
  obtain sc ds where c: "count_requests reqs [] [] = (sc, ds)" by (cases "count_requests reqs [] []")
  obtain s where s: "compute_duration_stats ds = Inr s" using compute_duration_stats_Inr by blast
  obtain t where t: "generate_summary sc s = Inr t" using generate_summary_Inr by blast
  show ?thesis using False c s t by (simp add: generate_report_def py_bind_def)
qed

lemma print_report_rpm:
  assumes "generate_report reqs = Inr rep"
  shows "print_report reqs =
           Inr (rep, case duration_stats rep of
                       None \<Rightarrow> 0
                     | Some stats \<Rightarrow>
                         if 0 < max_ms stats
                         then of_nat (total_requests rep) / (max_ms stats / 60000)
                         else 0)"
  using assms
  by (simp add: print_report_def py_bind_def py_truediv_def split: option.splits)

text \<open>
  Claim C9. With no recorded outcome the report has total count 0, an empty status
  histogram and no duration statistics. For every list of recorded outcomes, report
  generation and the printing of the summary line return a result: no division by zero
  (and no other exception) is raised. The requests-per-minute figure is the total divided
  by the maximum duration in minutes when there are statistics and that maximum is
  positive, and \<open>0\<close> otherwise.
\<close>

theorem empty_report_and_no_division_by_zero:
  "generate_report [] =
     Inr \<lparr>total_requests = 0, status_code_counts = [], duration_stats = None,
          summary = NoRequestData\<rparr>
   \<and> print_report [] =
     Inr (\<lparr>total_requests = 0, status_code_counts = [], duration_stats = None,
           summary = NoRequestData\<rparr>, 0)
   \<and> (\<exists>rep rpm. generate_report reqs = Inr rep
         \<and> print_report reqs = Inr (rep, rpm)
         \<and> rpm = (case duration_stats rep of
                     None \<Rightarrow> 0
                   | Some stats \<Rightarrow>
                       if 0 < max_ms stats
                       then of_nat (total_requests rep) / (max_ms stats / 60000)
                       else 0))"
proof -
  have e: "generate_report [] =
     Inr \<lparr>total_requests = 0, status_code_counts = [], duration_stats = None,
          summary = NoRequestData\<rparr>"
    by (simp add: generate_report_def)
  obtain rep where r: "generate_report reqs = Inr rep" using generate_report_Inr by blast
  from print_report_rpm [OF e] print_report_rpm [OF r] e r show ?thesis by simp
qed

theorem empty_report_and_no_division_by_zero_witness:
  "\<exists>rep rpm.
     print_report
       [\<lparr>status = Some 200, data = Some ''{}'', headers = Some [], error = None,
          request_id = Some ''a1'', duration_ms = Some 120\<rparr>,
        \<lparr>status = Some 500, data = None, headers = None, error = Some ''timeout'',
          request_id = Some ''unknown'', duration_ms = Some 0\<rparr>] = Inr (rep, rpm)
     \<and> total_requests rep = 2
     \<and> status_code_counts rep = [(200, 1), (500, 1)]
     \<and> rpm = 1000"
proof -
  let ?reqs =
    "[\<lparr>status = Some 200, data = Some ''{}'', headers = Some [], error = None,
        request_id = Some ''a1'', duration_ms = Some 120\<rparr>,
      \<lparr>status = Some 500, data = None, headers = None, error = Some ''timeout'',
        request_id = Some ''unknown'', duration_ms = Some 0\<rparr>]"
  from empty_report_and_no_division_by_zero [of ?reqs]
  obtain rep rpm where r: "print_report ?reqs = Inr (rep, rpm)" by blast
  have "print_report ?reqs =
    Inr (\<lparr>total_requests = 2, status_code_counts = [(200, 1), (500, 1)],
          duration_stats =
            Some \<lparr>min_ms = 120, max_ms = 120, avg_ms = 120, p50_ms = 120, p80_ms = 120,
                    p90_ms = 120, p95_ms = 120, p99_ms = 120\<rparr>,
          summary = SummaryLine 2 1 50 (Some (120, 120, 120, 120))\<rparr>, 1000)"
    by code_simp
  with r have "rep = \<lparr>total_requests = 2, status_code_counts = [(200, 1), (500, 1)],
          duration_stats =
            Some \<lparr>min_ms = 120, max_ms = 120, avg_ms = 120, p50_ms = 120, p80_ms = 120,
                    p90_ms = 120, p95_ms = 120, p99_ms = 120\<rparr>,
          summary = SummaryLine 2 1 50 (Some (120, 120, 120, 120))\<rparr>" and "rpm = 1000"
    by simp_all
  with r show ?thesis by simp
qed

section \<open>Properties of the sink\<close>

lemma write_item_ok:
  assumes "write_faults w = []"
  shows "\<exists>w'. write_item clock d w = Inr w'
           \<and> write_queue w' = write_queue w \<and> writer_task w' = writer_task w
           \<and> is_running w' = is_running w \<and> buffer_size w' = buffer_size w
           \<and> wait_timeout w' = wait_timeout w \<and> write_faults w' = write_faults w
           \<and> writing w' = writing w \<and> total_written w' = Suc (total_written w)
           \<and> file_disk w' @ file_buffer w' = file_disk w @ file_buffer w @ [d]"
  using assms by (simp add: write_item_def Let_def flush_def)

lemma writer_iteration_holds:
  assumes "sink_holds n0 w content"
  shows "sink_holds n0 (writer_iteration clock w) content
         \<and> buffer_size (writer_iteration clock w) = buffer_size w"
proof (cases "writing w")
  case (Some d)
  let ?w = "w\<lparr>writing := None\<rparr>"
  from assms have nf: "write_faults ?w = []" by (simp add: sink_holds_def)
  from write_item_ok [OF nf, of clock d]
  obtain w' where w': "write_item clock d ?w = Inr w'"
    "write_queue w' = write_queue ?w" "writer_task w' = writer_task ?w"
    "is_running w' = is_running ?w" "buffer_size w' = buffer_size ?w"
    "wait_timeout w' = wait_timeout ?w" "write_faults w' = write_faults ?w"
    "writing w' = writing ?w" "total_written w' = Suc (total_written ?w)"
    "file_disk w' @ file_buffer w' = file_disk ?w @ file_buffer ?w @ [d]"
    by blast
  have it: "writer_iteration clock w = w'"
    using assms Some w'(1) by (simp add: writer_iteration_def sink_holds_def)
  have "file_disk w' @ file_buffer w' @ map the (write_queue w)
          = (file_disk w' @ file_buffer w') @ map the (write_queue w)" by simp
  also have "\<dots> = (file_disk w @ file_buffer w @ [d]) @ map the (write_queue w)"
    using w'(10) by simp
  also have "\<dots> = content" using assms Some by (simp add: sink_holds_def)
  finally have c: "file_disk w' @ file_buffer w' @ map the (write_queue w) = content" .
  have "length (file_disk w' @ file_buffer w') = length (file_disk w @ file_buffer w @ [d])"
    using w'(10) by simp
  then have l: "n0 + total_written w' = length (file_disk w') + length (file_buffer w')"
    using assms w'(9) by (simp add: sink_holds_def)
  show ?thesis
    unfolding it using assms w'(2-8) c l by (simp add: sink_holds_def)
next
  case None
  show ?thesis
  proof (cases "write_queue w")
    case Nil
    with assms None show ?thesis by (simp add: writer_iteration_def sink_holds_def)
  next
    case (Cons x q)
    with assms obtain d where x: "x = Some d" by (cases x) (auto simp: sink_holds_def)
    with assms None Cons show ?thesis by (simp add: writer_iteration_def sink_holds_def)
  qed
qed

lemma writer_steps_holds:
  "sink_holds n0 w content \<Longrightarrow> sink_holds n0 (writer_steps clock k w) content"
  by (induction k arbitrary: w) (simp_all add: writer_iteration_holds)

lemma full_not_idle:
  assumes "sink_holds n0 w content" and "queue_full (buffer_size w) (write_queue w)"
  shows "\<not> writer_idle w"
proof -
  from assms(2) have "write_queue w \<noteq> []" by (auto simp: queue_full_def)
  with assms(1) show ?thesis by (simp add: writer_idle_def sink_holds_def)
qed

lemma wait_room_holds:
  assumes "sink_holds n0 w content"
  shows "\<exists>w'. wait_room clock w = Some w' \<and> sink_holds n0 w' content"
  using assms
proof (induction clock w rule: wait_room.induct)
  case (1 clock w)
  show ?case
  proof (cases "queue_full (buffer_size w) (write_queue w)")
    case False
    then have "wait_room clock w = Some w" by (subst wait_room.simps) simp
    with "1.prems" show ?thesis by simp
  next
    case True
    have run: "\<not> (writer_task w \<noteq> TaskRunning \<or> writer_idle w)"
      using "1.prems" full_not_idle [OF "1.prems" True] by (simp add: sink_holds_def)
    have h: "sink_holds n0 (writer_iteration clock w) content"
      using writer_iteration_holds [OF "1.prems"] by simp
    have "\<not> \<not> queue_full (buffer_size w) (write_queue w)" using True by simp
    from "1.IH" [OF this run h]
    obtain w' where "wait_room clock (writer_iteration clock w) = Some w'"
      "sink_holds n0 w' content" by blast
    moreover have "wait_room clock w = wait_room clock (writer_iteration clock w)"
      using True run by (subst wait_room.simps) simp
    ultimately show ?thesis by simp
  qed
qed

lemma write_data_holds:
  assumes "sink_holds n0 w content"
  shows "\<exists>w'. write_data clock d w = Some (Inr (), w') \<and> sink_holds n0 w' (content @ [d])"
proof -
  from wait_room_holds [OF assms, of clock]
  obtain w1 where w1: "wait_room clock w = Some w1" "sink_holds n0 w1 content"
    by blast
  have "sink_holds n0 (w1\<lparr>write_queue := write_queue w1 @ [Some d]\<rparr>) (content @ [d])"
    using w1(2) by (auto simp: sink_holds_def)
  with w1(1) assms show ?thesis by (simp add: write_data_def sink_holds_def)
qed

lemma write_all_holds:
  assumes "sink_holds n0 w content"
  shows "\<exists>w'. write_all clock sched items w = Some (Inr (), w')
           \<and> sink_holds n0 w' (content @ items)"
  using assms
proof (induction items arbitrary: w content sched)
  case Nil
  then show ?case by simp
next
  case (Cons d ds)
  let ?k = "case sched of [] \<Rightarrow> 0 | k # _ \<Rightarrow> k"
  have "sink_holds n0 (writer_steps clock ?k w) content"
    using Cons.prems by (rule writer_steps_holds)
  from write_data_holds [OF this, of clock d]
  obtain w1 where w1: "write_data clock d (writer_steps clock ?k w) = Some (Inr (), w1)"
    "sink_holds n0 w1 (content @ [d])" by blast
  from Cons.IH [OF w1(2), of "tl sched"]
  obtain w2 where "write_all clock (tl sched) ds w1 = Some (Inr (), w2)"
    "sink_holds n0 w2 ((content @ [d]) @ ds)" by blast
  with w1(1) show ?case by simp
qed

lemma await_writer_task_drains:
  assumes "writer_task w = TaskRunning" and "0 < wait_timeout w" and "write_faults w = []"
    and "write_queue w = map Some xs @ [None]"
    and "n0 + total_written w = length (file_disk w) + length (file_buffer w)"
  shows "\<exists>w'. await_writer_task clock w = Some w' \<and> writer_task w' = TaskDone
           \<and> file_disk w' = file_disk w @ file_buffer w
                @ (case writing w of None \<Rightarrow> [] | Some d \<Rightarrow> [d]) @ xs
           \<and> file_buffer w' = [] \<and> write_queue w' = [] \<and> writing w' = None
           \<and> is_running w' = is_running w
           \<and> n0 + total_written w' = length (file_disk w')"
  using assms
proof (induction clock w arbitrary: xs rule: await_writer_task.induct)
  case (1 clock w)
  have run: "\<not> writer_task w \<noteq> TaskRunning" using "1.prems"(1) by simp
  have busy: "\<not> writer_idle w" using "1.prems"(2,4) by (simp add: writer_idle_def)
  have unfold: "await_writer_task clock w = await_writer_task clock (writer_iteration clock w)"
    using run busy by (subst await_writer_task.simps) simp
  show ?case
  proof (cases "writing w")
    case (Some d)
    let ?w = "w\<lparr>writing := None\<rparr>"
    have nf: "write_faults ?w = []" using "1.prems"(3) by simp
    from write_item_ok [OF nf, of clock d]
    obtain w1 where w1: "write_item clock d ?w = Inr w1"
      "write_queue w1 = write_queue ?w" "writer_task w1 = writer_task ?w"
      "is_running w1 = is_running ?w"
      "wait_timeout w1 = wait_timeout ?w" "write_faults w1 = write_faults ?w"
      "writing w1 = writing ?w" "total_written w1 = Suc (total_written ?w)"
      "file_disk w1 @ file_buffer w1 = file_disk ?w @ file_buffer ?w @ [d]"
      by blast
    have it: "writer_iteration clock w = w1"
      using "1.prems"(1) Some w1(1) by (simp add: writer_iteration_def)
    have "length (file_disk w1 @ file_buffer w1) = length (file_disk w @ file_buffer w @ [d])"
      using w1(9) by simp
    then have l: "n0 + total_written w1 = length (file_disk w1) + length (file_buffer w1)"
      using "1.prems"(5) w1(8) by simp
    have p: "writer_task w1 = TaskRunning" "0 < wait_timeout w1" "write_faults w1 = []"
      "write_queue w1 = map Some xs @ [None]"
      using "1.prems" w1 by simp_all
    from "1.IH" [OF run busy, unfolded it, OF p l]
    obtain w' where w': "await_writer_task clock w1 = Some w'" "writer_task w' = TaskDone"
      "file_disk w' = file_disk w1 @ file_buffer w1
                @ (case writing w1 of None \<Rightarrow> [] | Some d \<Rightarrow> [d]) @ xs"
      "file_buffer w' = []" "write_queue w' = []" "writing w' = None"
      "is_running w' = is_running w1" "n0 + total_written w' = length (file_disk w')"
      by blast
    have "file_disk w' = (file_disk w1 @ file_buffer w1) @ xs"
      using w'(3) w1(7) by simp
    also have "\<dots> = file_disk w @ file_buffer w @ [d] @ xs" using w1(9) by simp
    finally have c: "file_disk w' = file_disk w @ file_buffer w @ [d] @ xs" .
    show ?thesis
      unfolding unfold it using w' c Some w1(4) by simp
  next
    case None
    show ?thesis
    proof (cases xs)
      case Nil
      let ?w1 = "(flush (w\<lparr>write_queue := []\<rparr>))\<lparr>writer_task := TaskDone\<rparr>"
      have it: "writer_iteration clock w = ?w1"
        using "1.prems" None Nil by (simp add: writer_iteration_def)
      have "await_writer_task clock ?w1 = Some ?w1"
        by (subst await_writer_task.simps) simp
      then show ?thesis
        unfolding unfold it using "1.prems"(5) None Nil by (simp add: flush_def)
    next
      case (Cons d xs')
      let ?w1 = "w\<lparr>write_queue := map Some xs' @ [None], writing := Some d\<rparr>"
      have it: "writer_iteration clock w = ?w1"
        using "1.prems" None Cons by (simp add: writer_iteration_def)
      have p: "writer_task ?w1 = TaskRunning" "0 < wait_timeout ?w1" "write_faults ?w1 = []"
        "write_queue ?w1 = map Some xs' @ [None]"
        "n0 + total_written ?w1 = length (file_disk ?w1) + length (file_buffer ?w1)"
        using "1.prems" by simp_all
      from "1.IH" [OF run busy, unfolded it, OF p]
      show ?thesis unfolding unfold it using None Cons by simp
    qed
  qed
qed

lemma stop_holds:
  assumes "sink_holds n0 w content"
  shows "\<exists>w'. stop clock w = Some (Inr (), w') \<and> file_disk w' = content \<and> file_buffer w' = []
           \<and> write_queue w' = [] \<and> writer_task w' = TaskDone \<and> \<not> is_running w'
           \<and> n0 + total_written w' = length content"
proof -
  from wait_room_holds [OF assms, of clock]
  obtain w1 where w1: "wait_room clock w = Some w1" "sink_holds n0 w1 content"
    by blast
  let ?xs = "map the (write_queue w1)"
  have q: "write_queue w1 = map Some ?xs"
    using w1(2) by (auto simp: sink_holds_def intro!: nth_equalityI simp: in_set_conv_nth)
  let ?w = "w1\<lparr>write_queue := write_queue w1 @ [None]\<rparr>"
  have p: "writer_task ?w = TaskRunning" "0 < wait_timeout ?w" "write_faults ?w = []"
    using w1(2) by (simp_all add: sink_holds_def)
  have q': "write_queue ?w = map Some ?xs @ [None]" using q by simp
  have len: "n0 + total_written ?w = length (file_disk ?w) + length (file_buffer ?w)"
    using w1(2) by (simp add: sink_holds_def)
  from await_writer_task_drains [OF p q' len, of clock]
  obtain w2 where w2: "await_writer_task clock ?w = Some w2" "writer_task w2 = TaskDone"
    "file_disk w2 = file_disk ?w @ file_buffer ?w
                @ (case writing ?w of None \<Rightarrow> [] | Some d \<Rightarrow> [d]) @ ?xs"
    "file_buffer w2 = []" "write_queue w2 = []"
    "n0 + total_written w2 = length (file_disk w2)"
    by blast
  have c: "file_disk w2 = content" using w2(3) w1(2) by (simp add: sink_holds_def)
  have "stop clock w = Some (Inr (), w2\<lparr>is_running := False\<rparr>)"
    using w1(1) assms w2(1,2) by (simp add: stop_def sink_holds_def)
  with w2 c show ?thesis by simp
qed

lemma start_new_writer_holds:
  "0 < wt \<Longrightarrow>
     sink_holds (length existing) (start (new_writer bs fc fi wt [] existing)) existing"
  by (simp add: sink_holds_def start_def new_writer_def)

text \<open>
  Claim C3, as amended. A writer with a positive \<open>wait_timeout\<close> is created (on a file
  holding the lines \<open>existing\<close>) and started; the items of a list are handed to
  \<open>write_data\<close> one by one, the writer task running in between as an arbitrary schedule
  and clock dictate, and then \<open>stop\<close> is called. If no write to the file raises, every
  call returns, and when \<open>stop\<close> returns the queue is empty, nothing is left unflushed
  and the persisted file holds the earlier lines followed by exactly the items written,
  in order: no item is lost, whatever flushes fired in between.
\<close>

theorem stop_persists_every_write:
  assumes "0 < wt" and "faults = []"
  shows "\<exists>w1 w2.
      write_all clock sched items (start (new_writer bs fc fi wt faults existing)) =
        Some (Inr (), w1)
      \<and> stop clock (writer_steps clock k w1) = Some (Inr (), w2)
      \<and> file_disk w2 = existing @ items \<and> file_buffer w2 = [] \<and> write_queue w2 = []
      \<and> length (file_disk w2) = length existing + length items
      \<and> total_written w2 = length items
      \<and> writer_task w2 = TaskDone \<and> \<not> is_running w2"
proof -
  let ?n0 = "length existing"
  have "sink_holds ?n0 (start (new_writer bs fc fi wt faults existing)) existing"
    unfolding assms(2) using assms(1) by (rule start_new_writer_holds)
  from write_all_holds [OF this, of clock sched items]
  obtain w1 where w1:
    "write_all clock sched items (start (new_writer bs fc fi wt faults existing)) =
       Some (Inr (), w1)"
    "sink_holds ?n0 w1 (existing @ items)" by blast
  have "sink_holds ?n0 (writer_steps clock k w1) (existing @ items)"
    using w1(2) by (rule writer_steps_holds)
  from stop_holds [OF this, of clock]
  obtain w2 where w2: "stop clock (writer_steps clock k w1) = Some (Inr (), w2)"
    "file_disk w2 = existing @ items" "file_buffer w2 = []" "write_queue w2 = []"
    "writer_task w2 = TaskDone" "\<not> is_running w2"
    "?n0 + total_written w2 = length (existing @ items)" by blast
  from w2(7) have "total_written w2 = length items" by simp
  with w1(1) w2 show ?thesis by simp
qed

text \<open>Twenty-five items, flush count 10, an empty file: twenty-five lines are persisted.\<close>

theorem stop_persists_every_write_witness:
  "(0::rat) < 1 / 10 \<and> ([] :: (nat \<times> py_error) list) = [] \<and>
   (\<exists>w1 w2. write_all (\<lambda>k. of_nat k / 2) [0, 3, 1] [1..<26]
              (start (new_writer 10 10 1 (1 / 10) [] [])) = Some (Inr (), w1)
      \<and> stop (\<lambda>k. of_nat k / 2) (writer_steps (\<lambda>k. of_nat k / 2) 2 w1) = Some (Inr (), w2)
      \<and> file_disk w2 = [1..<26] \<and> length (file_disk w2) = 25 \<and> total_written w2 = 25)"
proof -
  have h: "(0::rat) < 1 / 10" "([] :: (nat \<times> py_error) list) = []" by simp_all
  from stop_persists_every_write
    [OF h, of "\<lambda>k. of_nat k / 2" "[0, 3, 1]" "[1..<26]" 10 10 1 "[]" 2]
  obtain w1 w2 where
    "write_all (\<lambda>k. of_nat k / 2) [0, 3, 1] [1..<26]
              (start (new_writer 10 10 1 (1 / 10) [] [])) = Some (Inr (), w1)"
    "stop (\<lambda>k. of_nat k / 2) (writer_steps (\<lambda>k. of_nat k / 2) 2 w1) = Some (Inr (), w2)"
    "file_disk w2 = [] @ [1..<26]"
    "length (file_disk w2) = length ([] :: nat list) + length [1..<26]"
    "total_written w2 = length [1..<26]"
    by blast
  then have "\<exists>w1 w2. write_all (\<lambda>k. of_nat k / 2) [0, 3, 1] [1..<26]
              (start (new_writer 10 10 1 (1 / 10) [] [])) = Some (Inr (), w1)
      \<and> stop (\<lambda>k. of_nat k / 2) (writer_steps (\<lambda>k. of_nat k / 2) 2 w1) = Some (Inr (), w2)
      \<and> file_disk w2 = [1..<26] \<and> length (file_disk w2) = 25 \<and> total_written w2 = 25"
    by (intro exI [of _ w1] exI [of _ w2]) simp
  with h show ?thesis by simp
qed

text \<open>
  The claim as it stands holds for every sequence of items and every writer. Two runs
  refute it. In the first the write of the second of three items raises: the writer
  task ends, \<open>stop\<close> raises the exception, one line is persisted, the third item is
  still queued and the writer still counts as running. In the second the timeout is 0:
  the three calls of \<open>write_data\<close> return, the writer task takes no item and \<open>stop\<close>
  never returns.
\<close>

theorem stop_after_failed_write_counterexample:
  "map_option (\<lambda>(r, w). (r, file_disk w, write_queue w, is_running w))
     (Option.bind
        (write_all (\<lambda>k. of_nat k) [] [''a'', ''b'', ''c'']
           (start (new_writer 10 10 1 (1 / 10) [(2, UnicodeEncodeError)] [])))
        (\<lambda>(r, w1). stop (\<lambda>k. of_nat k) w1))
     = Some (Inl UnicodeEncodeError, [''a''], [Some ''c'', None], True)
   \<and> map_option fst
        (write_all (\<lambda>k. of_nat k) [] [''a'', ''b'', ''c''] (start (new_writer 10 10 1 0 [] [])))
     = Some (Inr ())
   \<and> Option.bind
        (write_all (\<lambda>k. of_nat k) [] [''a'', ''b'', ''c''] (start (new_writer 10 10 1 0 [] [])))
        (\<lambda>(r, w1). stop (\<lambda>k. of_nat k) w1)
     = None"
  by code_simp

text \<open>
  Claim C10. \<open>write_data\<close> on a writer that is not running raises \<open>RuntimeError\<close> and
  leaves the writer as it was, its queue and its counter of written items included.
  This is so for a writer that was never started and for the writer that a completed
  \<open>stop\<close> leaves behind.
\<close>

theorem write_data_rejected_when_not_running:
  "write_data clock d (new_writer bs fc fi wt faults existing) =
     Some (Inl RuntimeError, new_writer bs fc fi wt faults existing)
   \<and> (\<not> is_running w \<longrightarrow> write_data clock d w = Some (Inl RuntimeError, w))
   \<and> (stop clock w = Some (Inr (), w') \<longrightarrow>
        \<not> is_running w' \<and> write_data clock d w' = Some (Inl RuntimeError, w'))"
proof -
  have a: "\<And>v. \<not> is_running v \<Longrightarrow> write_data clock d v = Some (Inl RuntimeError, v)"
    by (simp add: write_data_def)
  have b: "\<not> is_running (new_writer bs fc fi wt faults existing)"
    by (simp add: new_writer_def)
  have c: "stop clock w = Some (Inr (), w') \<Longrightarrow> \<not> is_running w'"
    by (auto simp: stop_def split: if_splits option.splits task_state.splits)
  from a [OF b] a c show ?thesis by blast
qed

theorem write_data_rejected_when_not_running_witness:
  "\<exists>w w'. write_all (\<lambda>k. of_nat k) [] [''x'', ''y''] (start (new_writer 10 10 1 (1 / 10) [] []))
             = Some (Inr (), w)
     \<and> stop (\<lambda>k. of_nat k) w = Some (Inr (), w')
     \<and> \<not> is_running w'
     \<and> write_data (\<lambda>k. of_nat k) ''z'' w' = Some (Inl RuntimeError, w')
     \<and> write_queue w' = [] \<and> total_written w' = 2"
proof -
  have "sink_holds (length ([] :: string list))
          (start (new_writer 10 10 1 (1 / 10) [] ([] :: string list))) []"
    by (rule start_new_writer_holds) simp
  from write_all_holds [OF this, of "\<lambda>k. of_nat k" "[]" "[''x'', ''y'']"]
  obtain w where w:
    "write_all (\<lambda>k. of_nat k) [] [''x'', ''y''] (start (new_writer 10 10 1 (1 / 10) [] []))
       = Some (Inr (), w)"
    "sink_holds (length ([] :: string list)) w ([] @ [''x'', ''y''])" by blast
  from stop_holds [OF w(2), of "\<lambda>k. of_nat k"]
  obtain w' where w': "stop (\<lambda>k. of_nat k) w = Some (Inr (), w')" "write_queue w' = []"
    "length ([] :: string list) + total_written w' = length ([] @ [''x'', ''y''])" by blast
  from write_data_rejected_when_not_running
    [of "\<lambda>k. of_nat k" "''z''" 10 10 1 "1 / 10" "[]" "[]" w w'] w'(1)
  have "\<not> is_running w'" "write_data (\<lambda>k. of_nat k) ''z'' w' = Some (Inl RuntimeError, w')"
    by simp_all
  with w(1) w' show ?thesis by (intro exI [of _ w] exI [of _ w']) simp
qed

text \<open>
  Claim C4, which the code does not meet. A written item is followed by a flush exactly
  when the number of items waiting in the queue at that moment has reached
  \<open>flush_count\<close>, or \<open>flush_interval\<close> has passed since the last flush that the time
  condition caused; a threshold of zero disables its condition. The count condition
  therefore does not count the items written since the last flush: with
  \<open>flush_count = 1\<close> and the time condition disabled, an item is taken from an
  otherwise empty queue, written, and stays unflushed.
\<close>

theorem count_flush_reads_queue_size:
  "(case write_item clock d w of
      Inl e \<Rightarrow> map_of (write_faults w) (Suc (total_written w)) = Some e
    | Inr w' \<Rightarrow>
        flushes w' =
          (if (0 < flush_count w \<and> flush_count w \<le> int (length (write_queue w)))
              \<or> (0 < flush_interval w
                  \<and> flush_interval w \<le> clock (Suc (total_written w)) - last_flush_time w)
           then flushes w + 1 else flushes w))
   \<and> (\<exists>w1. write_data clock ''a'' (start (new_writer 10 1 0 (1 / 10) [] [])) = Some (Inr (), w1)
         \<and> total_written (writer_steps clock 2 w1) = 1
         \<and> file_buffer (writer_steps clock 2 w1) = [''a'']
         \<and> file_disk (writer_steps clock 2 w1) = []
         \<and> flushes (writer_steps clock 2 w1) = 0)"
proof -
  have a: "case write_item clock d w of
      Inl e \<Rightarrow> map_of (write_faults w) (Suc (total_written w)) = Some e
    | Inr w' \<Rightarrow>
        flushes w' =
          (if (0 < flush_count w \<and> flush_count w \<le> int (length (write_queue w)))
              \<or> (0 < flush_interval w
                  \<and> flush_interval w \<le> clock (Suc (total_written w)) - last_flush_time w)
           then flushes w + 1 else flushes w)"
    by (simp add: write_item_def Let_def count_due_def time_due_def flush_def
        split: option.splits)
  let ?w0 = "start (new_writer 10 1 0 (1 / 10) [] ([] :: string list))"
  let ?w1 = "?w0\<lparr>write_queue := [Some ''a'']\<rparr>"
  have nf: "\<not> queue_full (buffer_size ?w0) (write_queue ?w0)"
    by (simp add: queue_full_def start_def new_writer_def)
  have "wait_room clock ?w0 = Some ?w0"
    using nf by (subst wait_room.simps) simp
  then have b: "write_data clock ''a'' ?w0 = Some (Inr (), ?w1)"
    by (simp add: write_data_def start_def new_writer_def)
  have c: "writer_steps clock 2 ?w1 = ?w0\<lparr>total_written := 1, file_buffer := [''a'']\<rparr>"
    by (simp add: numeral_2_eq_2 writer_iteration_def write_item_def Let_def count_due_def
        time_due_def start_def new_writer_def)
  have e: "total_written (writer_steps clock 2 ?w1) = 1
         \<and> file_buffer (writer_steps clock 2 ?w1) = [''a'']
         \<and> file_disk (writer_steps clock 2 ?w1) = []
         \<and> flushes (writer_steps clock 2 ?w1) = 0"
    unfolding c by (simp add: start_def new_writer_def)
  from a b e show ?thesis by blast
qed

section \<open>Properties of the dispatcher and the pipeline\<close>

lemma save_entry_none: "response_writer c = None \<Longrightarrow> save_entry clock x c = Some (Inr (), c)"
  by (simp add: save_entry_def)

lemma save_entry_holds:
  assumes "response_writer c = Some w" "sink_holds n0 w content"
  shows "\<exists>w'. save_entry clock x c = Some (Inr (), c\<lparr>response_writer := Some w'\<rparr>)
           \<and> sink_holds n0 w' (content @ [x])"
proof -
  from write_data_holds [OF assms(2), of clock x]
  obtain w' where "write_data clock x w = Some (Inr (), w')" "sink_holds n0 w' (content @ [x])"
    by blast
  with assms(1) show ?thesis by (auto simp: save_entry_def)
qed

text \<open>
  Claim C5, as amended. When the dispatch attempt raises a transport error, and the
  client has no writer or a started and working writer that has not been stopped, the
  consumer returns normally. It records in the report generator an error response with status
  500, the error text and duration 0. The entry it returns, and the entry it hands to
  the sink (with a timestamp), carry the worker, the request number, the request id
  \<open>unknown\<close> and the error text; they hold no response, hence neither a status nor a
  duration.
\<close>

theorem transport_failure_outcome:
  assumes "response_writer c = None \<or> (\<exists>w. response_writer c = Some w \<and> sink_holds n0 w content)"
  shows "\<exists>c'. http_inference_consumer clock now (Inl (TransportError msg)) wid num c =
            Some (Inr \<lparr>worker_id = wid, request_num = num, entry_request_id = ''unknown'',
                       entry_response = None, entry_error = Some msg, timestamp = None\<rparr>, c')
         \<and> requests c' = requests c @
              [\<lparr>status = Some 500, data = None, headers = None, error = Some msg,
                request_id = Some ''unknown'', duration_ms = Some 0\<rparr>]
         \<and> (case response_writer c of
               None \<Rightarrow> response_writer c' = None
             | Some w \<Rightarrow>
                 (case response_writer c' of
                    None \<Rightarrow> False
                  | Some w' \<Rightarrow>
                      sink_holds n0 w'
                        (content @
                           [\<lparr>worker_id = wid, request_num = num, entry_request_id = ''unknown'',
                             entry_response = None, entry_error = Some msg,
                             timestamp = Some now\<rparr>])))"
proof (cases "response_writer c")
  case None
  then show ?thesis
    by (simp add: http_inference_consumer_def consumer_except_def Let_def save_entry_def
        add_request_def)
next
  case (Some w)
  with assms have h: "sink_holds n0 w content" by auto
  let ?resp = "\<lparr>status = Some 500, data = None, headers = None, error = Some msg,
                request_id = Some ''unknown'', duration_ms = Some 0\<rparr>"
  let ?x = "\<lparr>worker_id = wid, request_num = num, entry_request_id = ''unknown'',
                             entry_response = None, entry_error = Some msg,
                             timestamp = Some now\<rparr>"
  let ?c1 = "add_request ?resp c"
  have rw: "response_writer ?c1 = Some w" using Some by (simp add: add_request_def)
  from save_entry_holds [OF rw h, of clock ?x]
  obtain w' where w': "save_entry clock ?x ?c1 = Some (Inr (), ?c1\<lparr>response_writer := Some w'\<rparr>)"
    "sink_holds n0 w' (content @ [?x])" by blast
  then show ?thesis using Some
    by (simp add: http_inference_consumer_def consumer_except_def Let_def add_request_def)
qed

theorem transport_failure_outcome_witness:
  "response_writer \<lparr>requests = [], response_writer = Some (start (new_writer 20 10 1 (1 / 10) [] []))\<rparr>
     = Some (start (new_writer 20 10 1 (1 / 10) [] []))
   \<and> sink_holds 0 (start (new_writer 20 10 1 (1 / 10) [] [])) ([] :: entry list)
   \<and> (\<exists>c' w'. http_inference_consumer (\<lambda>k. 0) 7 (Inl (TransportError ''connection refused'')) 0 1
                \<lparr>requests = [], response_writer = Some (start (new_writer 20 10 1 (1 / 10) [] []))\<rparr> =
              Some (Inr \<lparr>worker_id = 0, request_num = 1, entry_request_id = ''unknown'',
                         entry_response = None, entry_error = Some ''connection refused'',
                         timestamp = None\<rparr>, c')
          \<and> requests c' =
              [\<lparr>status = Some 500, data = None, headers = None,
                 error = Some ''connection refused'', request_id = Some ''unknown'',
                 duration_ms = Some 0\<rparr>]
          \<and> response_writer c' = Some w'
          \<and> sink_holds 0 w'
                [\<lparr>worker_id = 0, request_num = 1, entry_request_id = ''unknown'',
                  entry_response = None, entry_error = Some ''connection refused'',
                  timestamp = Some 7\<rparr>])"
proof -
  let ?w = "start (new_writer 20 10 1 (1 / 10) [] ([] :: entry list))"
  let ?c = "\<lparr>requests = [], response_writer = Some ?w\<rparr>"
  have h: "sink_holds 0 ?w []"
    using start_new_writer_holds [of "1 / 10" "[] :: entry list" 20 10 1] by simp
  then have "response_writer ?c = None
               \<or> (\<exists>w. response_writer ?c = Some w \<and> sink_holds 0 w [])" by simp
  from transport_failure_outcome [OF this, of "\<lambda>k. 0" 7 "''connection refused''" 0 1]
  obtain c' where c':
    "http_inference_consumer (\<lambda>k. 0) 7 (Inl (TransportError ''connection refused'')) 0 1 ?c =
       Some (Inr \<lparr>worker_id = 0, request_num = 1, entry_request_id = ''unknown'',
                  entry_response = None, entry_error = Some ''connection refused'',
                  timestamp = None\<rparr>, c')"
    "requests c' = requests ?c @
       [\<lparr>status = Some 500, data = None, headers = None,
          error = Some ''connection refused'', request_id = Some ''unknown'',
          duration_ms = Some 0\<rparr>]"
    "case response_writer ?c of
       None \<Rightarrow> response_writer c' = None
     | Some w \<Rightarrow>
         (case response_writer c' of
            None \<Rightarrow> False
          | Some w' \<Rightarrow>
              sink_holds 0 w'
                ([] @ [\<lparr>worker_id = 0, request_num = 1, entry_request_id = ''unknown'',
                        entry_response = None, entry_error = Some ''connection refused'',
                        timestamp = Some 7\<rparr>]))"
    by blast
  from c'(3) obtain w' where w': "response_writer c' = Some w'"
    "sink_holds 0 w'
       [\<lparr>worker_id = 0, request_num = 1, entry_request_id = ''unknown'',
         entry_response = None, entry_error = Some ''connection refused'',
         timestamp = Some 7\<rparr>]"
    by (cases "response_writer c'") simp_all
  from h c'(1,2) w' show ?thesis by simp
qed

text \<open>
  The claim as it stands asks for status 500 and duration 0 on the outcome the consumer
  returns and writes to the sink. After a refused connection the entry returned and the
  entry queued for the sink carry neither.
\<close>

theorem transport_failure_entry_counterexample:
  "\<exists>r c' w' x.
     http_inference_consumer (\<lambda>k. 0) 7 (Inl (TransportError ''connection refused'')) 0 1
       \<lparr>requests = [], response_writer = Some (start (new_writer 20 10 1 (1 / 10) [] []))\<rparr> =
         Some (Inr r, c')
     \<and> entry_status r \<noteq> Some 500 \<and> entry_duration_ms r \<noteq> Some 0
     \<and> response_writer c' = Some w' \<and> write_queue w' = [Some x]
     \<and> entry_status x \<noteq> Some 500 \<and> entry_duration_ms x \<noteq> Some 0"
proof -
  let ?r = "\<lparr>worker_id = 0, request_num = 1, entry_request_id = ''unknown'',
             entry_response = None, entry_error = Some ''connection refused'',
             timestamp = None\<rparr>"
  let ?x = "\<lparr>worker_id = 0, request_num = 1, entry_request_id = ''unknown'',
             entry_response = None, entry_error = Some ''connection refused'',
             timestamp = Some 7\<rparr>"
  let ?w' = "\<lparr>buffer_size = 20, flush_count = 10, flush_interval = 1,
              wait_timeout = 1 / 10, write_queue = [Some ?x], writer_task = TaskRunning,
              is_running = True, total_written = 0, last_flush_time = 0, writing = None,
              write_faults = [], file_buffer = [], file_disk = [], flushes = 0\<rparr>"
  let ?c' = "\<lparr>requests =
               [\<lparr>status = Some 500, data = None, headers = None,
                  error = Some ''connection refused'', request_id = Some ''unknown'',
                  duration_ms = Some 0\<rparr>],
             response_writer = Some ?w'\<rparr>"
  have "http_inference_consumer (\<lambda>k. 0) 7 (Inl (TransportError ''connection refused'')) 0 1
       \<lparr>requests = [], response_writer = Some (start (new_writer 20 10 1 (1 / 10) [] []))\<rparr> =
         Some (Inr ?r, ?c')"
    by code_simp
  moreover have "entry_status ?r \<noteq> Some 500" "entry_duration_ms ?r \<noteq> Some 0"
    "entry_status ?x \<noteq> Some 500" "entry_duration_ms ?x \<noteq> Some 0"
    by (simp_all add: entry_status_def entry_duration_ms_def)
  moreover have "response_writer ?c' = Some ?w'" "write_queue ?w' = [Some ?x]" by simp_all
  ultimately show ?thesis by blast
qed

lemma filter_count_update:
  assumes "i < length xs"
  shows "length (filter P (xs[i := y])) + (if P (xs ! i) then 1 else 0) =
         length (filter P xs) + (if P y then 1 else 0)"
proof -
  have a: "xs[i := y] = take i xs @ y # drop (Suc i) xs"
    using assms by (rule upd_conv_take_nth_drop)
  have b: "xs = take i xs @ xs ! i # drop (Suc i) xs"
    using assms by (rule id_take_nth_drop)
  have "length (filter P xs) = length (filter P (take i xs @ xs ! i # drop (Suc i) xs))"
    using b by simp
  then show ?thesis unfolding a by simp
qed

lemma producer_step_markers:
  "producer_step s = Some s' \<Longrightarrow> end_markers s' = end_markers s \<and> workers s' = workers s"
  by (auto simp: producer_step_def end_markers_def split: if_splits list.splits)

lemma consumer_step_markers:
  assumes "consumer_step f i s = Some s'"
  shows "end_markers s' = end_markers s \<and> length (workers s') = length (workers s)"
proof -
  from assms have i: "i < length (workers s)" and act: "wstatus (workers s ! i) = Active"
    by (auto simp: consumer_step_def Let_def split: if_splits)
  let ?P = "\<lambda>wk. wstatus wk = Exited"
  have u: "\<And>y. length (filter ?P ((workers s)[i := y])) =
               length (filter ?P (workers s)) + (if ?P y then 1 else 0)"
    using filter_count_update [OF i, of ?P] act by simp
  show ?thesis
  proof (cases "data_queue s")
    case Nil
    with assms i act show ?thesis by (simp add: consumer_step_def Let_def)
  next
    case (Cons x q)
    show ?thesis
    proof (cases x)
      case None
      with assms i act Cons show ?thesis
        by (auto simp: consumer_step_def Let_def end_markers_def u)
    next
      case (Some d)
      with assms i act Cons show ?thesis
        by (auto simp: consumer_step_def Let_def end_markers_def u
            split: option.splits sum.splits prod.splits)
    qed
  qed
qed

lemma step_markers:
  "end_markers (step f a s) = end_markers s \<and> length (workers (step f a s)) = length (workers s)"
proof (cases a)
  case Produce
  then show ?thesis
    using producer_step_markers [of s] by (auto simp: step_def split: option.splits)
next
  case (Consume i)
  then show ?thesis
    using consumer_step_markers [of f i s] by (auto simp: step_def split: option.splits)
qed

lemma run_markers:
  "end_markers (run f sched s) = end_markers s \<and> length (workers (run f sched s)) = length (workers s)"
  by (induction sched arbitrary: s) (simp_all add: step_markers)

lemma finished_markers:
  assumes "finished s"
  shows "length (workers s) \<le> end_markers s"
proof -
  from assms have "list_all (\<lambda>wk. wstatus wk = Exited) (workers s)" by (simp add: finished_def)
  then have "filter (\<lambda>wk. wstatus wk = Exited) (workers s) = workers s"
    by (simp add: list_all_iff)
  then show ?thesis by (simp add: end_markers_def)
qed

text \<open>
  Claim C2, which the code does not meet. The producer puts a single end marker and the
  worker that reads it does not put it back. With two or more workers at most one of
  them ever leaves its loop: whatever the schedule, the consumer function, the records
  and the queue size, the executor never returns.
\<close>

theorem executor_never_returns_with_several_workers:
  assumes "2 \<le> max_workers"
  shows "producer_consumer_executor consumer_func sched records bsize max_workers e = None"
proof -
  let ?s = "run consumer_func sched (start_pipeline records bsize max_workers e)"
  have m: "end_markers ?s = 1" and l: "length (workers ?s) = nat max_workers"
    using run_markers [of consumer_func sched "start_pipeline records bsize max_workers e"]
    by (simp_all add: start_pipeline_def end_markers_def)
  have "\<not> finished ?s"
  proof
    assume "finished ?s"
    then have "length (workers ?s) \<le> end_markers ?s" by (rule finished_markers)
    with m l assms show False by simp
  qed
  then show ?thesis by (simp add: producer_consumer_executor_def)
qed

theorem executor_never_returns_with_several_workers_witness:
  "(2::int) \<le> 2 \<and>
   producer_consumer_executor
     (client_consumer (\<lambda>k. 0) (\<lambda>i n. 0)
        (\<lambda>b. Inr \<lparr>status = Some 200, data = Some ''{}'', headers = Some [], error = None,
                    request_id = Some ''id'', duration_ms = Some 12\<rparr>))
     [Produce, Produce, Consume 0, Consume 1, Produce, Consume 0, Consume 1, Consume 1]
     [''a'', ''b''] 10 2 \<lparr>requests = [], response_writer = None\<rparr> = None"
proof -
  have h: "(2::int) \<le> 2" by simp
  from executor_never_returns_with_several_workers [OF h] h show ?thesis by simp
qed

lemma consumer_except_tags:
  "consumer_except clock now e wid num c = Some (Inr r, c') \<Longrightarrow>
     worker_id r = wid \<and> request_num r = num"
  by (auto simp: consumer_except_def Let_def split: option.splits sum.splits prod.splits)

lemma http_inference_consumer_tags:
  "http_inference_consumer clock now attempt wid num c = Some (Inr r, c') \<Longrightarrow>
     worker_id r = wid \<and> request_num r = num"
  by (auto simp: http_inference_consumer_def Let_def
      split: option.splits sum.splits prod.splits dest: consumer_except_tags)

lemma numberedI:
  assumes "\<And>x. x \<in> set (results s) \<Longrightarrow> worker_id x < length (workers s)"
    and "\<And>i. i < length (workers s) \<Longrightarrow>
           map request_num (filter (\<lambda>x. worker_id x = i) (results s)) =
             [1..<Suc (processed_count (workers s ! i))]"
  shows "numbered s"
  using assms by (simp add: numbered_def list_all_iff)

lemma numberedD:
  assumes "numbered s"
  shows "x \<in> set (results s) \<Longrightarrow> worker_id x < length (workers s)"
    and "i < length (workers s) \<Longrightarrow>
           map request_num (filter (\<lambda>x. worker_id x = i) (results s)) =
             [1..<Suc (processed_count (workers s ! i))]"
  using assms by (simp_all add: numbered_def list_all_iff)

lemma consumer_step_numbered:
  assumes f: "\<And>d i n c r c'. f d i n c = Some (Inr r, c') \<Longrightarrow> worker_id r = i \<and> request_num r = n"
    and st: "consumer_step f i s = Some s'"
    and inv: "numbered s"
  shows "numbered s'"
proof -
  from st have i: "i < length (workers s)"
    by (auto simp: consumer_step_def Let_def split: if_splits)
  let ?wk = "workers s ! i"
  consider
    (same) "results s' = results s" "length (workers s') = length (workers s)"
      "\<And>j. j < length (workers s) \<Longrightarrow> processed_count (workers s' ! j) = processed_count (workers s ! j)"
  | (new) r where "results s' = results s @ [r]" "worker_id r = i"
      "request_num r = Suc (processed_count ?wk)"
      "workers s' = (workers s)[i := ?wk\<lparr>processed_count := Suc (processed_count ?wk)\<rparr>]"
  proof (cases "data_queue s")
    case Nil
    with st show ?thesis by (auto simp: consumer_step_def Let_def split: if_splits)
  next
    case (Cons x q)
    show ?thesis
    proof (cases x)
      case None
      with st Cons i have "results s' = results s" "length (workers s') = length (workers s)"
        "\<And>j. j < length (workers s) \<Longrightarrow> processed_count (workers s' ! j) = processed_count (workers s ! j)"
        by (auto simp: consumer_step_def Let_def nth_list_update split: if_splits)
      then show ?thesis by (rule same)
    next
      case (Some d)
      show ?thesis
      proof (cases "f d i (processed_count ?wk + 1) (env s)")
        case None
        with st Cons Some i have "results s' = results s" "length (workers s') = length (workers s)"
          "\<And>j. j < length (workers s) \<Longrightarrow> processed_count (workers s' ! j) = processed_count (workers s ! j)"
          by (auto simp: consumer_step_def Let_def nth_list_update split: if_splits)
        then show ?thesis by (rule same)
      next
        case (Some a)
        obtain res c' where a: "a = (res, c')" by (cases a)
        show ?thesis
        proof (cases res)
          case (Inl e)
          with st Cons \<open>x = Some d\<close> Some a i
          have "results s' = results s" "length (workers s') = length (workers s)"
            "\<And>j. j < length (workers s) \<Longrightarrow> processed_count (workers s' ! j) = processed_count (workers s ! j)"
            by (auto simp: consumer_step_def Let_def split: if_splits)
          then show ?thesis by (rule same)
        next
          case (Inr r)
          with Some a have "f d i (processed_count ?wk + 1) (env s) = Some (Inr r, c')" by simp
          from f [OF this] have t: "worker_id r = i" "request_num r = Suc (processed_count ?wk)"
            by simp_all
          from st Cons \<open>x = Some d\<close> Some a Inr i
          have "results s' = results s @ [r]"
            "workers s' = (workers s)[i := ?wk\<lparr>processed_count := Suc (processed_count ?wk)\<rparr>]"
            by (auto simp: consumer_step_def Let_def split: if_splits)
          with t show ?thesis by (intro new [of r]) simp_all
        qed
      qed
    qed
  qed
  then show ?thesis
  proof cases
    case same
    show ?thesis
    proof (rule numberedI)
      fix x assume "x \<in> set (results s')"
      with same numberedD(1) [OF inv] show "worker_id x < length (workers s')" by simp
    next
      fix j assume "j < length (workers s')"
      with same numberedD(2) [OF inv, of j]
      show "map request_num (filter (\<lambda>x. worker_id x = j) (results s')) =
              [1..<Suc (processed_count (workers s' ! j))]" by simp
    qed
  next
    case (new r)
    show ?thesis
    proof (rule numberedI)
      fix x assume "x \<in> set (results s')"
      with new i numberedD(1) [OF inv] show "worker_id x < length (workers s')" by auto
    next
      fix j assume j: "j < length (workers s')"
      then have j': "j < length (workers s)" using new by simp
      show "map request_num (filter (\<lambda>x. worker_id x = j) (results s')) =
              [1..<Suc (processed_count (workers s' ! j))]"
      proof (cases "j = i")
        case True
        with new i numberedD(2) [OF inv, of i] show ?thesis by simp
      next
        case False
        with new j' numberedD(2) [OF inv, of j] show ?thesis by simp
      qed
    qed
  qed
qed

lemma producer_step_numbered:
  assumes "producer_step s = Some s'" and "numbered s"
  shows "numbered s'"
proof -
  from assms(1) have r: "results s' = results s" and w: "workers s' = workers s"
    by (auto simp: producer_step_def split: if_splits list.splits)
  from assms(2) show ?thesis unfolding numbered_def r w .
qed

lemma step_numbered:
  assumes "\<And>d i n c r c'. f d i n c = Some (Inr r, c') \<Longrightarrow> worker_id r = i \<and> request_num r = n"
    and "numbered s"
  shows "numbered (step f a s)"
proof (cases a)
  case Produce
  with assms(2) show ?thesis
    using producer_step_numbered [of s] by (auto simp: step_def split: option.splits)
next
  case (Consume i)
  with assms(2) show ?thesis
    using consumer_step_numbered [of f i s, OF assms(1)]
    by (auto simp: step_def split: option.splits)
qed

lemma run_numbered:
  assumes "\<And>d i n c r c'. f d i n c = Some (Inr r, c') \<Longrightarrow> worker_id r = i \<and> request_num r = n"
    and "numbered s"
  shows "numbered (run f sched s)"
  using assms(2)
proof (induction sched arbitrary: s)
  case Nil
  then show ?case by simp
next
  case (Cons a sched)
  have "numbered (step f a s)" using assms(1) Cons.prems by (rule step_numbered)
  then show ?case using Cons.IH by simp
qed

lemma start_pipeline_numbered: "numbered (start_pipeline records bsize max_workers e)"
  by (simp add: numbered_def start_pipeline_def list_all_iff)


lemma sink_holds_own:
  "sink_holds n0 w content \<Longrightarrow>
     sink_holds n0 w (file_disk w @ file_buffer w
        @ (case writing w of None \<Rightarrow> [] | Some d \<Rightarrow> [d]) @ map the (write_queue w))"
  by (simp add: sink_holds_def)

lemma save_entry_ready:
  assumes "client_ready n0 c"
  shows "\<exists>c'. save_entry clock x c = Some (Inr (), c') \<and> client_ready n0 c'"
proof (cases "response_writer c")
  case None
  with assms show ?thesis by (simp add: save_entry_def)
next
  case (Some w)
  with assms obtain content where "sink_holds n0 w content"
    by (auto simp: client_ready_def)
  from save_entry_holds [OF Some this, of clock x]
  obtain w' where w': "save_entry clock x c = Some (Inr (), c\<lparr>response_writer := Some w'\<rparr>)"
    "sink_holds n0 w' (content @ [x])" by blast
  from sink_holds_own [OF w'(2)]
  have "client_ready n0 (c\<lparr>response_writer := Some w'\<rparr>)" by (simp add: client_ready_def)
  with w'(1) show ?thesis by blast
qed

lemma add_request_ready: "client_ready n0 c \<Longrightarrow> client_ready n0 (add_request r c)"
  by (simp add: client_ready_def add_request_def)

lemma consumer_except_ready:
  assumes "client_ready n0 c"
  shows "\<exists>c'. consumer_except clock now e wid num c =
            Some (Inr \<lparr>worker_id = wid, request_num = num, entry_request_id = ''unknown'',
                       entry_response = None, entry_error = Some (py_str e),
                       timestamp = None\<rparr>, c')
           \<and> client_ready n0 c'"
proof -
  let ?r = "\<lparr>status = Some 500, data = None, headers = None, error = Some (py_str e),
             request_id = Some ''unknown'', duration_ms = Some 0\<rparr>"
  let ?x = "\<lparr>worker_id = wid, request_num = num, entry_request_id = ''unknown'',
             entry_response = None, entry_error = Some (py_str e), timestamp = Some now\<rparr>"
  have "client_ready n0 (add_request ?r c)" using assms by (rule add_request_ready)
  from save_entry_ready [OF this, of clock ?x]
  obtain c' where "save_entry clock ?x (add_request ?r c) = Some (Inr (), c')"
    "client_ready n0 c'" by blast
  then show ?thesis by (simp add: consumer_except_def Let_def)
qed

lemma http_inference_consumer_ready:
  assumes "client_ready n0 c"
  shows "\<exists>c'. http_inference_consumer clock now attempt wid num c =
            Some (Inr (outcome_entry attempt wid num), c')
           \<and> client_ready n0 c'"
proof (cases attempt)
  case (Inl e)
  with consumer_except_ready [OF assms, of clock now e wid num] show ?thesis
    by (simp add: http_inference_consumer_def outcome_entry_def)
next
  case (Inr resp)
  show ?thesis
  proof (cases "status resp")
    case None
    with Inr consumer_except_ready [OF assms, of clock now KeyError wid num] show ?thesis
      by (simp add: http_inference_consumer_def outcome_entry_def Let_def)
  next
    case (Some st)
    let ?rid = "case request_id resp of None \<Rightarrow> ''unknown'' | Some i \<Rightarrow> i"
    let ?x = "\<lparr>worker_id = wid, request_num = num, entry_request_id = ?rid,
               entry_response = Some resp, entry_error = None, timestamp = Some now\<rparr>"
    have "client_ready n0 (add_request resp c)" using assms by (rule add_request_ready)
    from save_entry_ready [OF this, of clock ?x]
    obtain c' where "save_entry clock ?x (add_request resp c) = Some (Inr (), c')"
      "client_ready n0 c'" by blast
    with Inr Some show ?thesis
      by (simp add: http_inference_consumer_def outcome_entry_def Let_def)
  qed
qed

lemma serial_runI:
  assumes "records = cs @ qs @ source s" "length (workers s) = 1"
    "data_queue s = map Some qs
       @ (if producer_done s \<and> wstatus (workers s ! 0) = Active then [None] else [])"
    "if producer_done s then source s = [] else wstatus (workers s ! 0) = Active"
    "if wstatus (workers s ! 0) = Exited then qs = [] else wstatus (workers s ! 0) = Active"
    "processed_count (workers s ! 0) = length cs"
    "results s = map (\<lambda>(i, d). outcome_entry (post d) 0 (Suc i)) (enumerate 0 cs)"
    "client_ready n0 (env s)"
  shows "serial_run post n0 records s"
  unfolding serial_run_def using assms by blast

lemma producer_step_serial:
  assumes st: "producer_step s = Some s'" and inv: "serial_run post n0 records s"
  shows "serial_run post n0 records s'"
proof -
  from inv obtain cs qs where i:
    "records = cs @ qs @ source s" "length (workers s) = 1"
    "data_queue s = map Some qs
       @ (if producer_done s \<and> wstatus (workers s ! 0) = Active then [None] else [])"
    "if producer_done s then source s = [] else wstatus (workers s ! 0) = Active"
    "if wstatus (workers s ! 0) = Exited then qs = [] else wstatus (workers s ! 0) = Active"
    "processed_count (workers s ! 0) = length cs"
    "results s = map (\<lambda>(i, d). outcome_entry (post d) 0 (Suc i)) (enumerate 0 cs)"
    "client_ready n0 (env s)"
    unfolding serial_run_def by blast
  from st have nd: "\<not> producer_done s"
    by (auto simp: producer_step_def split: if_splits)
  with i(4) have act: "wstatus (workers s ! 0) = Active" by simp
  from i(3) nd have q: "data_queue s = map Some qs" by simp
  show ?thesis
  proof (cases "source s")
    case Nil
    with st nd have s': "s' = s\<lparr>data_queue := data_queue s @ [None], producer_done := True\<rparr>"
      by (auto simp: producer_step_def split: if_splits)
    show ?thesis
      by (rule serial_runI [where cs = cs and qs = qs])
        (use i Nil act q in \<open>simp_all add: s'\<close>)
  next
    case (Cons d ds)
    with st nd have s': "s' = s\<lparr>source := ds, data_queue := data_queue s @ [Some d]\<rparr>"
      by (auto simp: producer_step_def split: if_splits)
    show ?thesis
      by (rule serial_runI [where cs = cs and qs = "qs @ [d]"])
        (use i Cons act q nd in \<open>simp_all add: s'\<close>)
  qed
qed

lemma consumer_step_serial:
  assumes st: "consumer_step (client_consumer clock now post) j s = Some s'"
    and inv: "serial_run post n0 records s"
  shows "serial_run post n0 records s'"
proof -
  from inv obtain cs qs where i:
    "records = cs @ qs @ source s" "length (workers s) = 1"
    "data_queue s = map Some qs
       @ (if producer_done s \<and> wstatus (workers s ! 0) = Active then [None] else [])"
    "if producer_done s then source s = [] else wstatus (workers s ! 0) = Active"
    "if wstatus (workers s ! 0) = Exited then qs = [] else wstatus (workers s ! 0) = Active"
    "processed_count (workers s ! 0) = length cs"
    "results s = map (\<lambda>(i, d). outcome_entry (post d) 0 (Suc i)) (enumerate 0 cs)"
    "client_ready n0 (env s)"
    unfolding serial_run_def by blast
  from st i(2) have j: "j = 0"
    by (auto simp: consumer_step_def Let_def split: if_splits)
  from st have act: "wstatus (workers s ! 0) = Active"
    unfolding j by (auto simp: consumer_step_def Let_def split: if_splits)
  let ?wk = "workers s ! 0"
  have upd: "\<And>y. length ((workers s)[0 := y]) = 1 \<and> (workers s)[0 := y] ! 0 = y"
    using i(2) by simp
  show ?thesis
  proof (cases qs)
    case Nil
    show ?thesis
    proof (cases "producer_done s")
      case False
      with i(3) Nil have "data_queue s = []" by simp
      with st j i(2) act show ?thesis by (simp add: consumer_step_def Let_def)
    next
      case True
      with i(3) Nil act have q: "data_queue s = [None]" by simp
      with st j i(2) act
      have s': "s' = s\<lparr>data_queue := [], workers := (workers s)[0 := ?wk\<lparr>wstatus := Exited\<rparr>]\<rparr>"
        by (simp add: consumer_step_def Let_def)
      show ?thesis
        by (rule serial_runI [where cs = cs and qs = "[]"])
          (use i Nil True upd in \<open>simp_all add: s'\<close>)
    qed
  next
    case (Cons d qs')
    let ?rest = "map Some qs'
       @ (if producer_done s \<and> wstatus (workers s ! 0) = Active then [None] else [])"
    from i(3) Cons have q: "data_queue s = Some d # ?rest" by simp
    from http_inference_consumer_ready [OF i(8), of clock "now 0 (Suc (length cs))" "post d" 0
        "Suc (length cs)"]
    obtain c' where c':
      "client_consumer clock now post d 0 (Suc (length cs)) (env s) =
         Some (Inr (outcome_entry (post d) 0 (Suc (length cs))), c')"
      "client_ready n0 c'"
      unfolding client_consumer_def by blast
    from st j i(2) act q c'(1) i(6)
    have s': "s' = s\<lparr>data_queue := ?rest, env := c',
                     results := results s @ [outcome_entry (post d) 0 (Suc (length cs))],
                     workers := (workers s)[0 := ?wk\<lparr>processed_count := Suc (length cs)\<rparr>]\<rparr>"
      by (simp add: consumer_step_def Let_def)
    show ?thesis
      by (rule serial_runI [where cs = "cs @ [d]" and qs = qs'])
        (use i Cons act upd c'(2) in \<open>simp_all add: s' enumerate_append_eq\<close>)
  qed
qed

lemma step_serial:
  "serial_run post n0 records s \<Longrightarrow>
     serial_run post n0 records (step (client_consumer clock now post) a s)"
  by (cases a)
    (auto simp: step_def split: option.splits
      intro: producer_step_serial consumer_step_serial)

lemma run_serial:
  "serial_run post n0 records s \<Longrightarrow>
     serial_run post n0 records (run (client_consumer clock now post) sched s)"
  by (induction sched arbitrary: s) (simp_all add: step_serial)

lemma start_pipeline_serial:
  "client_ready n0 e \<Longrightarrow> serial_run post n0 records (start_pipeline records bsize 1 e)"
  by (rule serial_runI [where cs = "[]" and qs = "[]"]) (simp_all add: start_pipeline_def)

lemma serial_run_results:
  assumes "serial_run post n0 records s"
  shows "\<exists>k \<le> length records.
           results s = map (\<lambda>(i, d). outcome_entry (post d) 0 (Suc i))
                         (enumerate 0 (take k records))
           \<and> (if finished s then k = length records else True)"
proof -
  from assms obtain cs qs where i:
    "records = cs @ qs @ source s" "length (workers s) = 1"
    "if producer_done s then source s = [] else wstatus (workers s ! 0) = Active"
    "if wstatus (workers s ! 0) = Exited then qs = [] else wstatus (workers s ! 0) = Active"
    "results s = map (\<lambda>(i, d). outcome_entry (post d) 0 (Suc i)) (enumerate 0 cs)"
    unfolding serial_run_def by blast
  have t: "take (length cs) records = cs" using i(1) by simp
  have l: "length cs \<le> length records" using i(1) by simp
  have f: "length cs = length records" if "finished s"
  proof -
    from that have d: "producer_done s" and "list_all (\<lambda>wk. wstatus wk = Exited) (workers s)"
      by (simp_all add: finished_def)
    with i(2) have "wstatus (workers s ! 0) = Exited"
      by (cases "workers s") simp_all
    with i(3,4) d have "qs = []" "source s = []" by simp_all
    with i(1) show ?thesis by simp
  qed
  show ?thesis
    by (rule exI [of _ "length cs"]) (use l t i(5) f in auto)
qed

lemma request_num_outcome_entry: "request_num (outcome_entry a wid num) = num"
  by (simp add: outcome_entry_def split: sum.splits option.splits)

text \<open>
  Claim C1, as amended. The request number is the worker's own count of the records it
  has processed, plus one, taken when the worker gets a record from the queue. At every
  point of every run the results of each worker carry the numbers 1, 2, ... up to that
  worker's count, in order. With a single worker, the configuration the client uses, the
  request numbers of the \<open>N\<close> results are therefore exactly 1, ..., \<open>N\<close> in order,
  without gap or repetition. If moreover the consumer's writes to the sink return (the
  client has no writer, or a started and working one), the records are processed in the
  order in which they were read: the \<open>i\<close>-th result is the consumer's entry for the
  \<open>i\<close>-th record of the source and carries the request number \<open>i\<close>, and when the
  executor returns there is one result for every record.
\<close>

theorem request_num_counts_per_worker:
  fixes post :: "'a \<Rightarrow> py_error + response"
    and clock now sched records bsize max_workers e n0
  defines "s \<equiv> run (client_consumer clock now post) sched
                   (start_pipeline records bsize max_workers e)"
  shows "(\<forall>i < length (workers s).
            map request_num (filter (\<lambda>x. worker_id x = i) (results s)) =
              [1..<Suc (processed_count (workers s ! i))])
         \<and> (max_workers = 1 \<longrightarrow>
              map request_num (results s) = [1..<Suc (length (results s))])
         \<and> (max_workers = 1 \<and> client_ready n0 e \<longrightarrow>
              length (results s) \<le> length records
              \<and> (\<forall>i < length (results s).
                    results s ! i = outcome_entry (post (records ! i)) 0 (Suc i)
                    \<and> request_num (results s ! i) = Suc i)
              \<and> (finished s \<longrightarrow> length (results s) = length records))"
proof -
  have tags: "\<And>d i n c r c'. client_consumer clock now post d i n c = Some (Inr r, c')
                \<Longrightarrow> worker_id r = i \<and> request_num r = n"
    unfolding client_consumer_def by (rule http_inference_consumer_tags)
  have n: "numbered s"
    unfolding s_def using tags start_pipeline_numbered by (rule run_numbered)
  have len: "length (workers s) = nat max_workers"
    unfolding s_def
    using run_markers [of "client_consumer clock now post" sched
        "start_pipeline records bsize max_workers e"]
    by (simp add: start_pipeline_def)
  have a: "\<forall>i < length (workers s).
            map request_num (filter (\<lambda>x. worker_id x = i) (results s)) =
              [1..<Suc (processed_count (workers s ! i))]"
    using numberedD(2) [OF n] by blast
  have b: "map request_num (results s) = [1..<Suc (length (results s))]" if "max_workers = 1"
  proof -
    from that len have l1: "length (workers s) = 1" by simp
    then have "\<And>x. x \<in> set (results s) \<Longrightarrow> worker_id x = 0"
      using numberedD(1) [OF n] by fastforce
    then have all: "filter (\<lambda>x. worker_id x = 0) (results s) = results s"
      by (simp add: filter_id_conv)
    from a l1 have m: "map request_num (results s) = [1..<Suc (processed_count (workers s ! 0))]"
      by (simp add: all)
    from arg_cong [OF m, of length] have "length (results s) = processed_count (workers s ! 0)"
      by simp
    with m show ?thesis by simp
  qed
  have c: "length (results s) \<le> length records
              \<and> (\<forall>i < length (results s).
                    results s ! i = outcome_entry (post (records ! i)) 0 (Suc i)
                    \<and> request_num (results s ! i) = Suc i)
              \<and> (finished s \<longrightarrow> length (results s) = length records)"
    if "max_workers = 1" and "client_ready n0 e"
  proof -
    have "serial_run post n0 records s"
      unfolding s_def that(1)
      using that(2) by (intro run_serial start_pipeline_serial)
    from serial_run_results [OF this]
    obtain k where k: "k \<le> length records"
      "results s = map (\<lambda>(i, d). outcome_entry (post d) 0 (Suc i)) (enumerate 0 (take k records))"
      "if finished s then k = length records else True"
      by blast
    from k(1,2) have lk: "length (results s) = k" by simp
    have "results s ! i = outcome_entry (post (records ! i)) 0 (Suc i)
          \<and> request_num (results s ! i) = Suc i" if "i < length (results s)" for i
    proof -
      from that lk k(1) have "i < length (take k records)" by simp
      then have "results s ! i = outcome_entry (post (take k records ! i)) 0 (Suc i)"
        unfolding k(2) by (simp add: nth_enumerate_eq)
      moreover have "take k records ! i = records ! i" using that lk by simp
      ultimately show ?thesis by (simp add: request_num_outcome_entry)
    qed
    then have nth: "\<forall>i < length (results s).
                    results s ! i = outcome_entry (post (records ! i)) 0 (Suc i)
                    \<and> request_num (results s ! i) = Suc i" by blast
    have le: "length (results s) \<le> length records" using lk k(1) by simp
    have fin: "finished s \<longrightarrow> length (results s) = length records"
      using lk k(3) by (simp split: if_splits)
    from le nth fin show ?thesis by blast
  qed
  from a b c show ?thesis by blast
qed

theorem request_num_counts_per_worker_witness:
  "client_ready 0 \<lparr>requests = [], response_writer = None\<rparr>
   \<and> finished
       (run (client_consumer (\<lambda>k. 0) (\<lambda>i n. 0)
               (\<lambda>b. if b = ''a'' then Inl (TransportError ''timeout'')
                    else Inr \<lparr>status = Some 200, data = Some b, headers = Some [],
                               error = None, request_id = Some ''id'',
                               duration_ms = Some 12\<rparr>))
          [Produce, Consume 0, Produce, Produce, Consume 0, Consume 0, Produce, Consume 0]
          (start_pipeline [''a'', ''b'', ''c''] 10 1 \<lparr>requests = [], response_writer = None\<rparr>))
   \<and> map request_num
       (results (run (client_consumer (\<lambda>k. 0) (\<lambda>i n. 0)
               (\<lambda>b. if b = ''a'' then Inl (TransportError ''timeout'')
                    else Inr \<lparr>status = Some 200, data = Some b, headers = Some [],
                               error = None, request_id = Some ''id'',
                               duration_ms = Some 12\<rparr>))
          [Produce, Consume 0, Produce, Produce, Consume 0, Consume 0, Produce, Consume 0]
          (start_pipeline [''a'', ''b'', ''c''] 10 1 \<lparr>requests = [], response_writer = None\<rparr>)))
     = [1, 2, 3]
   \<and> results (run (client_consumer (\<lambda>k. 0) (\<lambda>i n. 0)
               (\<lambda>b. if b = ''a'' then Inl (TransportError ''timeout'')
                    else Inr \<lparr>status = Some 200, data = Some b, headers = Some [],
                               error = None, request_id = Some ''id'',
                               duration_ms = Some 12\<rparr>))
          [Produce, Consume 0, Produce, Produce, Consume 0, Consume 0, Produce, Consume 0]
          (start_pipeline [''a'', ''b'', ''c''] 10 1 \<lparr>requests = [], response_writer = None\<rparr>))
       ! 1
     = outcome_entry
         (Inr \<lparr>status = Some 200, data = Some ''b'', headers = Some [], error = None,
               request_id = Some ''id'', duration_ms = Some 12\<rparr>) 0 2"
proof -
  let ?post = "\<lambda>b. if b = ''a'' then Inl (TransportError ''timeout'')
                    else Inr \<lparr>status = Some 200, data = Some b, headers = Some [],
                               error = None, request_id = Some ''id'',
                               duration_ms = Some 12\<rparr>"
  let ?e = "\<lparr>requests = [], response_writer = None\<rparr>"
  define s where "s = run (client_consumer (\<lambda>k. 0) (\<lambda>i n. 0) ?post)
         [Produce, Consume 0, Produce, Produce, Consume 0, Consume 0, Produce, Consume 0]
         (start_pipeline [''a'', ''b'', ''c''] 10 1 ?e)"
  have r: "client_ready 0 ?e" by (simp add: client_ready_def)
  have f: "finished s" unfolding s_def by code_simp
  have one: "(1::int) = 1" by simp
  note t = request_num_counts_per_worker
    [where max_workers = 1 and clock = "\<lambda>k. 0" and now = "\<lambda>i n. 0" and post = ?post
       and sched = "[Produce, Consume 0, Produce, Produce, Consume 0, Consume 0, Produce, Consume 0]"
       and records = "[''a'', ''b'', ''c'']" and bsize = 10 and e = ?e and ?n0.0 = 0,
     folded s_def]
  from t one have m: "map request_num (results s) = [1..<Suc (length (results s))]"
    by blast
  from t one r have c: "\<forall>i < length (results s).
              results s ! i = outcome_entry (?post ([''a'', ''b'', ''c''] ! i)) 0 (Suc i)
              \<and> request_num (results s ! i) = Suc i"
    by blast
  from t one r f have l: "length (results s) = length [''a'', ''b'', ''c'']"
    by blast
  from l have l3: "length (results s) = 3" by simp
  from m have m3: "map request_num (results s) = [1, 2, 3]"
    unfolding l3 by (simp add: upt_rec)
  from c l3 have "results s ! 1 = outcome_entry (?post ([''a'', ''b'', ''c''] ! 1)) 0 (Suc 1)"
    by simp
  then have e1: "results s ! 1 =
      outcome_entry
         (Inr \<lparr>status = Some 200, data = Some ''b'', headers = Some [], error = None,
               request_id = Some ''id'', duration_ms = Some 12\<rparr>) 0 2"
    by (simp add: numeral_2_eq_2)
  from r f m3 e1 show ?thesis unfolding s_def by blast
qed

text \<open>
  The claim as it stands includes runs with more than one worker. With two workers and
  two records, each worker taking one, both results carry the request number 1.
\<close>

theorem request_num_two_workers_counterexample:
  "map request_num
     (results (run (client_consumer (\<lambda>k. 0) (\<lambda>i n. 0)
                      (\<lambda>b. Inr \<lparr>status = Some 200, data = Some ''{}'', headers = Some [],
                                 error = None, request_id = Some ''id'',
                                 duration_ms = Some 12\<rparr>))
         [Produce, Produce, Consume 0, Consume 1]
         (start_pipeline [''a'', ''b''] 10 2 \<lparr>requests = [], response_writer = None\<rparr>)))
   = [1, 1]"
  by code_simp

end
